theory Spec2Isabelle
  imports Complex_Main "HOL-Library.AList"
begin

section \<open>Data model\<close>

text \<open>
  A JavaScript object with string keys and string values (a dependency map, a dist-tags
  map) is an association list in insertion order, which is the order of \<open>Object.keys\<close>
  for keys that are package names.
\<close>

type_synonym js_object = "(string \<times> string) list"

text \<open>
  The errors a promise of the registry client rejects with: an error object with
  \<open>code === 'ETARGET'\<close> and its \<open>distTags\<close> payload, one with \<open>code === 'E404'\<close>, one with any
  other code (named by its message), and a plain \<open>new Error(message)\<close> made by this program.
\<close>

datatype error =
    ETARGET js_object
  | E404
  | OtherError string
  | JsError string

record manifest =
  man_name :: string
  man_version :: string
  dependencies :: js_object
  devDependencies :: js_object
  peerDependencies :: js_object
  optionalDependencies :: js_object
  isLatest :: bool

record packument =
  dist_tags :: js_object

text \<open>An element of the resolver's output and of the downloader's input.\<close>

record package =
  pkg_name :: string
  pkg_version :: string
  pkg_isLatest :: bool

text \<open>
  The libraries the program calls: \<open>semver.valid\<close> (used as a truth value),
  \<open>semver.coerce\<close> (the coerced version string, or null), \<open>pacote.manifest\<close>,
  \<open>pacote.packument\<close> and \<open>pacote.tarball.toFile\<close>. The program builds the spec string
  \<open>`${name}@${version}`\<close> and the client splits it again: a query is the name with
  \<open>Some version\<close>, and the bare name of \<open>pacote.manifest(packageName)\<close> is the name with
  \<open>None\<close>, for which the client takes its default tag \<open>latest\<close>. A promise is the value it
  settles with: \<open>Inl\<close> a rejection, \<open>Inr\<close> a fulfilment.
\<close>

record libs =
  semver_valid :: "string \<Rightarrow> bool"
  semver_coerce :: "string \<Rightarrow> string option"
  pacote_manifest :: "string \<Rightarrow> string option \<Rightarrow> error + manifest"
  pacote_packument :: "string \<Rightarrow> error + packument"
  pacote_tarball_toFile :: "string \<Rightarrow> string \<Rightarrow> string \<Rightarrow> error option"

text \<open>
  The options object of \<open>resolveDependencies\<close>. \<open>logger\<close> tells whether a logger function
  is present (its calls are recorded as events); \<open>depth\<close> and \<open>progress\<close> are \<open>None\<close> while
  the object has no such field. JavaScript computes \<open>progress\<close> in doubles; the model keeps
  the exact fraction.
\<close>

record options =
  dev :: bool
  peer :: bool
  optional :: bool
  registry :: "string option"
  logger :: bool
  depth :: "int option"
  progress :: "rat option"

record download_options =
  dl_logger :: bool
  destFolder :: "string option"
  useCache :: bool
  dl_registry :: "string option"

section \<open>The cache module\<close>

text \<open>
  Modelled from the spec: the module \<open>./cache\<close> (\<open>resolvedPackages\<close> with \<open>get\<close>, \<open>set\<close>,
  \<open>clean\<close>, and \<open>cache\<close> with \<open>exist\<close>, \<open>add\<close>) is not among the sources. The spec gives the
  visited set the operations has, add and reset over a logical set of (name, version)
  keys, and the tarball cache the operations exists and add over a durable set of such keys.
\<close>

type_synonym pair_set = "(string \<times> string) set"

definition resolvedPackages_get :: "pair_set \<Rightarrow> string \<Rightarrow> string \<Rightarrow> bool" where
  "resolvedPackages_get s n v = ((n, v) \<in> s)"

definition resolvedPackages_set :: "pair_set \<Rightarrow> string \<Rightarrow> string \<Rightarrow> pair_set" where
  "resolvedPackages_set s n v = insert (n, v) s"

definition resolvedPackages_clean :: "pair_set \<Rightarrow> pair_set" where
  "resolvedPackages_clean s = {}"

definition cache_exist :: "pair_set \<Rightarrow> string \<Rightarrow> string \<Rightarrow> bool" where
  "cache_exist s n v = ((n, v) \<in> s)"

definition cache_add :: "pair_set \<Rightarrow> string \<Rightarrow> string \<Rightarrow> pair_set" where
  "cache_add s n v = insert (n, v) s"

section \<open>Strings\<close>

text \<open>
  \<open>str.replace(c, r)\<close> with a one-character string pattern: only the first occurrence of
  the pattern is replaced, wherever it stands.
\<close>

fun js_replace :: "char \<Rightarrow> string \<Rightarrow> string \<Rightarrow> string" where
  "js_replace c r [] = []"
| "js_replace c r (x # xs) = (if x = c then r @ xs else x # js_replace c r xs)"

section \<open>Edge extraction\<close>

text \<open>
  lodash \<open>merge(object, ...sources)\<close> on flat objects with string values: each source is
  assigned into the object in turn, a key already present keeps its place and takes the
  new value, a new key is appended. A source that is \<open>{}\<close> or undefined adds nothing.
\<close>

definition assign :: "js_object \<Rightarrow> js_object \<Rightarrow> js_object" where
  "assign obj src = foldl (\<lambda>acc (k, v). AList.update k v acc) obj src"

definition lodash_merge :: "js_object \<Rightarrow> js_object list \<Rightarrow> js_object" where
  "lodash_merge obj srcs = foldl assign obj srcs"

text \<open>
  The body of the callback of \<open>Object.keys(packages).map\<close>: \<open>cleanVersion\<close> is only
  tested; the value returned is \<open>version\<close>, which is the range as given unless the test
  fails.
\<close>

definition cleanVersion :: "string \<Rightarrow> string" where
  "cleanVersion version = js_replace (CHR ''~'') [] (js_replace (CHR ''^'') [] version)"

definition queryVersion :: "libs \<Rightarrow> string \<Rightarrow> string" where
  "queryVersion L rangeString =
     (let version = rangeString
      in if \<not> semver_valid L (cleanVersion version)
         then (case semver_coerce L (cleanVersion version) of
                 None \<Rightarrow> ''latest''
               | Some coerceVersion \<Rightarrow> coerceVersion)
         else version)"

text \<open>The keys of an object are distinct; so are those of the four maps of a manifest.\<close>

definition wf_manifest :: "manifest \<Rightarrow> bool" where
  "wf_manifest m =
     (distinct (map fst (dependencies m)) \<and> distinct (map fst (devDependencies m)) \<and>
      distinct (map fst (peerDependencies m)) \<and> distinct (map fst (optionalDependencies m)))"

definition mergedPackages :: "manifest \<Rightarrow> options \<Rightarrow> js_object" where
  "mergedPackages manifest opts =
     lodash_merge (dependencies manifest)
       [if dev opts then devDependencies manifest else [],
        if peer opts then peerDependencies manifest else [],
        if optional opts then optionalDependencies manifest else []]"

definition getManifestDependencies :: "libs \<Rightarrow> manifest \<Rightarrow> options \<Rightarrow> (string \<times> string) list" where
  "getManifestDependencies L manifest opts =
     map (\<lambda>(name, rangeString). (name, queryVersion L rangeString)) (mergedPackages manifest opts)"

section \<open>Registry client\<close>

text \<open>The calls a manifest lookup makes, in the order they are issued.\<close>

datatype call =
    ManifestCall string "string option"
  | PackumentCall string

definition distTags_latest :: "js_object \<Rightarrow> string" where
  "distTags_latest tags = (case map_of tags ''latest'' of None \<Rightarrow> ''undefined'' | Some l \<Rightarrow> l)"

text \<open>
  The first promise of the \<open>Promise.all\<close> in \<open>getPackageManifest\<close>: the manifest query
  with its \<open>catch\<close> handler. The result is the calls made and the settled value.
\<close>

definition manifestWithFallback :: "libs \<Rightarrow> string \<Rightarrow> string \<Rightarrow> call list \<times> (error + manifest)" where
  "manifestWithFallback L packageName packageVersion =
     (case pacote_manifest L packageName (Some packageVersion) of
        Inr m \<Rightarrow> ([ManifestCall packageName (Some packageVersion)], Inr m)
      | Inl (ETARGET distTags) \<Rightarrow>
          ([ManifestCall packageName (Some packageVersion),
            ManifestCall packageName (Some (distTags_latest distTags))],
           pacote_manifest L packageName (Some (distTags_latest distTags)))
      | Inl E404 \<Rightarrow>
          (if packageVersion \<noteq> ''latest''
           then ([ManifestCall packageName (Some packageVersion), ManifestCall packageName None],
                 pacote_manifest L packageName None)
           else ([ManifestCall packageName (Some packageVersion)],
                 Inl (JsError (packageName @ ''@'' @ packageVersion @ '' not found''))))
      | Inl e \<Rightarrow> ([ManifestCall packageName (Some packageVersion)], Inl e))"

text \<open>
  \<open>getPackageManifest\<close>: both promises are started, then the retry (if any) follows.
  \<open>Promise.all\<close> rejects as soon as one of the two rejects; when both reject the model
  reports the manifest's error.
\<close>

definition getPackageManifest :: "libs \<Rightarrow> string \<Rightarrow> string \<Rightarrow> call list \<times> (error + manifest)" where
  "getPackageManifest L packageName packageVersion =
     (let (mcalls, mres) = manifestWithFallback L packageName packageVersion
      in if packageVersion \<noteq> ''latest''
         then (hd mcalls # PackumentCall packageName # tl mcalls,
               case mres of
                 Inl e \<Rightarrow> Inl e
               | Inr m \<Rightarrow>
                   (case pacote_packument L packageName of
                      Inl e \<Rightarrow> Inl e
                    | Inr p \<Rightarrow>
                        Inr (m\<lparr>isLatest := (map_of (dist_tags p) ''latest'' = Some (man_version m))\<rparr>)))
         else (mcalls,
               case mres of
                 Inl e \<Rightarrow> Inl e
               | Inr m \<Rightarrow> Inr (m\<lparr>isLatest := True\<rparr>)))"

section \<open>Downloader\<close>

definition tarballPath :: "string \<Rightarrow> string \<Rightarrow> string \<Rightarrow> bool \<Rightarrow> string" where
  "tarballPath dest name version latest =
     dest @ ''/'' @ js_replace (CHR ''/'') ''-'' name @ ''-'' @ version
       @ (if latest then ''-latest'' else '''') @ ''.tgz''"

text \<open>
  \<open>downloadPackageTarball\<close>: one call of \<open>pacote.tarball.toFile\<close>; the result is the path
  handed to it and the settled value.
\<close>

definition downloadPackageTarball :: "libs \<Rightarrow> string \<Rightarrow> string \<Rightarrow> string \<Rightarrow> bool \<Rightarrow> string \<times> (error + package)" where
  "downloadPackageTarball L name version dest latest =
     (tarballPath dest name version latest,
      case pacote_tarball_toFile L name version (tarballPath dest name version latest) of
        Some e \<Rightarrow> Inl e
      | None \<Rightarrow> Inr \<lparr>pkg_name = name, pkg_version = version, pkg_isLatest = latest\<rparr>)"

text \<open>Whether the tarball of a package is fetched and written without an error.\<close>

definition written :: "libs \<Rightarrow> string \<Rightarrow> package \<Rightarrow> bool" where
  "written L dest p =
     (pacote_tarball_toFile L (pkg_name p) (pkg_version p)
        (tarballPath dest (pkg_name p) (pkg_version p) (pkg_isLatest p)) = None)"

text \<open>An element of the array \<open>Promise.allSettled\<close> resolves with.\<close>

datatype 'a settled = Fulfilled 'a | Rejected error

fun isRejected :: "'a settled \<Rightarrow> bool" where
  "isRejected (Rejected e) = True"
| "isRejected (Fulfilled v) = False"

text \<open>
  What a run of \<open>downloadPackages\<close> leaves behind: the settled results (a value \<open>None\<close> is
  JavaScript's null), the tarball cache, the logger events, the errors printed by
  \<open>handlerError\<close>, the paths handed to the tarball writer, and the counter.
\<close>

record download_state =
  dl_result :: "package option settled list"
  dl_cache :: pair_set
  dl_events :: "(string \<times> rat) list"
  dl_console :: "error list"
  dl_files :: "string list"
  dl_counter :: nat

text \<open>
  One element of \<open>packagesToDownload.map(...)\<close>: the download, its \<open>then\<close> handler and its
  \<open>catch\<close> handler. \<open>len\<close> is \<open>packagesToDownload.length\<close>.
\<close>

definition downloadOne :: "libs \<Rightarrow> download_options \<Rightarrow> string \<Rightarrow> nat \<Rightarrow> download_state \<Rightarrow> package \<Rightarrow> download_state" where
  "downloadOne L opts dest len s p =
     (case downloadPackageTarball L (pkg_name p) (pkg_version p) dest (pkg_isLatest p) of
        (path, Inr res) \<Rightarrow>
          s\<lparr>dl_counter := dl_counter s + 1,
            dl_events := (if dl_logger opts
                          then dl_events s @ [(''Fetching packages: '' @ pkg_name res @ ''@'' @ pkg_version res,
                                               (1 / of_nat len) * of_nat (dl_counter s + 1))]
                          else dl_events s),
            dl_cache := (if useCache opts then cache_add (dl_cache s) (pkg_name res) (pkg_version res)
                         else dl_cache s),
            dl_files := dl_files s @ [path],
            dl_result := dl_result s @ [Fulfilled (Some res)]\<rparr>
      | (path, Inl e) \<Rightarrow>
          s\<lparr>dl_console := dl_console s @ [e],
            dl_files := dl_files s @ [path],
            dl_result := dl_result s @ [Fulfilled None]\<rparr>)"

definition packagesToDownload :: "download_options \<Rightarrow> pair_set \<Rightarrow> package list \<Rightarrow> package list" where
  "packagesToDownload opts cache packages =
     (if useCache opts
      then filter (\<lambda>p. \<not> cache_exist cache (pkg_name p) (pkg_version p)) packages
      else packages)"

definition destFolderOf :: "download_options \<Rightarrow> string" where
  "destFolderOf opts = (case destFolder opts of None \<Rightarrow> ''.'' | Some d \<Rightarrow> if d = [] then ''.'' else d)"

text \<open>
  \<open>downloadPackages\<close>: the downloads settle one after the other in the order of the
  input, which is one of the schedules of the concurrent program.
\<close>

definition downloadPackages :: "libs \<Rightarrow> package list \<Rightarrow> download_options \<Rightarrow> pair_set \<Rightarrow> download_state" where
  "downloadPackages L packages opts cache =
     (let todo = packagesToDownload opts cache packages
      in foldl (downloadOne L opts (destFolderOf opts) (length todo))
           \<lparr>dl_result = [], dl_cache = cache, dl_events = [], dl_console = [], dl_files = [],
            dl_counter = 0\<rparr>
           todo)"

section \<open>Resolver\<close>

text \<open>
  The state the resolver works on. The options object is one object shared by every level
  of the recursion (\<open>Object.assign(options, ...)\<close> returns its first argument), so it is
  part of the state, with the visited set, the logger events and the errors printed by
  \<open>handlerError\<close>.
\<close>

record world =
  w_options :: options
  resolved :: pair_set
  events :: "(string \<times> rat) list"
  console :: "error list"

definition depth_or0 :: "options \<Rightarrow> int" where
  "depth_or0 opts = (case depth opts of None \<Rightarrow> 0 | Some d \<Rightarrow> d)"

definition progress_or0 :: "options \<Rightarrow> rat" where
  "progress_or0 opts = (case progress opts of None \<Rightarrow> 0 | Some p \<Rightarrow> p)"

text \<open>The fulfilled values and the rejection reasons of a list of settled promises.\<close>

fun fulfilled :: "(error + manifest) list \<Rightarrow> manifest list" where
  "fulfilled [] = []"
| "fulfilled (Inr m # rs) = m # fulfilled rs"
| "fulfilled (Inl e # rs) = fulfilled rs"

fun rejections :: "(error + manifest) list \<Rightarrow> error list" where
  "rejections [] = []"
| "rejections (Inr m # rs) = rejections rs"
| "rejections (Inl e # rs) = e # rejections rs"

text \<open>The callback of \<open>manifests.forEach\<close>: one logger event, one entry of the visited set.\<close>

definition announce :: "world \<Rightarrow> manifest \<Rightarrow> world" where
  "announce w p =
     w\<lparr>events := (if logger (w_options w)
                   then events w @ [(''Resolving dependencies: '' @ man_name p @ ''@'' @ man_version p,
                                     progress_or0 (w_options w))]
                   else events w),
       resolved := resolvedPackages_set (resolved w) (man_name p) (man_version p)\<rparr>"

definition toPackage :: "manifest \<Rightarrow> package" where
  "toPackage m = \<lparr>pkg_name = man_name m, pkg_version = man_version m, pkg_isLatest = isLatest m\<rparr>"

text \<open>
  \<open>resolveDependencies\<close>, and its \<open>for ... of\<close> loop as \<open>resolveChilds\<close> (\<open>n\<close> is
  \<open>dependencies.length\<close> of the call the loop belongs to). The first argument bounds the
  depth of the recursion: \<open>None\<close> means that the bound was reached.
\<close>

fun resolveDependencies :: "nat \<Rightarrow> libs \<Rightarrow> manifest \<Rightarrow> world \<Rightarrow> (package list \<times> world) option"
  and resolveChilds :: "nat \<Rightarrow> libs \<Rightarrow> nat \<Rightarrow> manifest list \<Rightarrow> world \<Rightarrow> (package list \<times> world) option"
where
  "resolveDependencies 0 L manifest w = None"
| "resolveDependencies (Suc fuel) L manifest w =
     (let deps = getManifestDependencies L manifest (w_options w)
      in if deps = [] then Some ([], w)
         else
           (let w1 = w\<lparr>w_options := (w_options w)\<lparr>depth := Some (depth_or0 (w_options w)),
                                                    progress := Some (progress_or0 (w_options w))\<rparr>\<rparr>;
                settled = map (\<lambda>(name, version). snd (getPackageManifest L name version))
                            (filter (\<lambda>(name, version). \<not> resolvedPackages_get (resolved w1) name version) deps);
                w2 = w1\<lparr>console := console w1 @ rejections settled\<rparr>;
                manifests = filter (\<lambda>m. \<not> resolvedPackages_get (resolved w2) (man_name m) (man_version m))
                              (fulfilled settled);
                w3 = foldl announce w2 manifests
            in resolveChilds fuel L (length deps) manifests w3))"
| "resolveChilds fuel L n [] w = Some ([], w)"
| "resolveChilds fuel L n (currManifest # rest) w =
     (case resolveDependencies fuel L currManifest
             (w\<lparr>w_options := (w_options w)\<lparr>depth := Some (depth_or0 (w_options w) + 1)\<rparr>\<rparr>) of
        None \<Rightarrow> None
      | Some (dependenciesChilds, w1) \<Rightarrow>
          (let w2 = (if depth (w_options w1) = Some 0
                     then w1\<lparr>w_options := (w_options w1)\<lparr>progress :=
                                 Some (progress_or0 (w_options w1) + 1 / of_nat n)\<rparr>\<rparr>
                     else w1)
           in case resolveChilds fuel L n rest w2 of
                None \<Rightarrow> None
              | Some (others, w3) \<Rightarrow> Some (toPackage currManifest # dependenciesChilds @ others, w3)))"

section \<open>Notions for the resolver's properties\<close>

definition pkg_key :: "package \<Rightarrow> string \<times> string" where
  "pkg_key p = (pkg_name p, pkg_version p)"

definition man_key :: "manifest \<Rightarrow> string \<times> string" where
  "man_key m = (man_name m, man_version m)"

text \<open>
  The manifests of one call that survive both filters (the array \<open>manifests\<close> after line
  177), and the state after the \<open>forEach\<close> that follows.
\<close>

definition settledEdges :: "libs \<Rightarrow> manifest \<Rightarrow> world \<Rightarrow> (error + manifest) list" where
  "settledEdges L manifest w =
     map (\<lambda>(name, version). snd (getPackageManifest L name version))
       (filter (\<lambda>(name, version). (name, version) \<notin> resolved w)
          (getManifestDependencies L manifest (w_options w)))"

definition batch :: "libs \<Rightarrow> manifest \<Rightarrow> world \<Rightarrow> manifest list" where
  "batch L manifest w = filter (\<lambda>m. man_key m \<notin> resolved w) (fulfilled (settledEdges L manifest w))"

definition enter :: "libs \<Rightarrow> manifest \<Rightarrow> world \<Rightarrow> world" where
  "enter L manifest w =
     foldl announce
       (w\<lparr>w_options := (w_options w)\<lparr>depth := Some (depth_or0 (w_options w)),
                                      progress := Some (progress_or0 (w_options w))\<rparr>,
          console := console w @ rejections (settledEdges L manifest w)\<rparr>)
       (batch L manifest w)"

text \<open>The option fields other than \<open>depth\<close> and \<open>progress\<close> are the same in both objects.\<close>

definition frame :: "options \<Rightarrow> options \<Rightarrow> bool" where
  "frame opts opts' =
     (dev opts' = dev opts \<and> peer opts' = peer opts \<and> optional opts' = optional opts \<and>
      registry opts' = registry opts \<and> logger opts' = logger opts)"

text \<open>
  The (name, version) pairs of the manifests the registry can answer with: the nodes of the
  dependency graph.
\<close>

definition universe :: "libs \<Rightarrow> pair_set" where
  "universe L = {k. \<exists>n v m. pacote_manifest L n v = Inr m \<and> k = man_key m}"

text \<open>
  A registry answers a query for a name with a manifest of that name, whose maps have
  distinct keys.
\<close>

definition name_faithful :: "libs \<Rightarrow> bool" where
  "name_faithful L = (\<forall>n v m. pacote_manifest L n v = Inr m \<longrightarrow> man_name m = n \<and> wf_manifest m)"

text \<open>
  What a call leaves behind, in terms of the state before (\<open>w\<close>), the output and the
  state after (\<open>w'\<close>).
\<close>

definition call_effect :: "world \<Rightarrow> package list \<Rightarrow> world \<Rightarrow> bool" where
  "call_effect w out w' =
     (resolved w' = resolved w \<union> pkg_key ` set out
      \<and> frame (w_options w) (w_options w')
      \<and> (\<forall>d. depth (w_options w) = Some d \<longrightarrow> depth (w_options w') = Some (d + int (length out)))
      \<and> (progress (w_options w) \<noteq> None \<longrightarrow> progress (w_options w') \<noteq> None)
      \<and> (0 \<le> depth_or0 (w_options w) \<longrightarrow> progress_or0 (w_options w') = progress_or0 (w_options w)))"

section \<open>The semver library and a table registry\<close>

definition is_digit :: "char \<Rightarrow> bool" where
  "is_digit c = (c \<in> set ''0123456789'')"

definition is_prerelease_char :: "char \<Rightarrow> bool" where
  "is_prerelease_char c =
     (c \<in> set ''0123456789abcdefghijklmnopqrstuvwxyzABCDEFGHIJKLMNOPQRSTUVWXYZ-.'')"

text \<open>A leading number \<open>N\<close> and what follows it.\<close>

definition version_component :: "string \<Rightarrow> (string \<times> string) option" where
  "version_component s =
     (if takeWhile is_digit s = [] then None
      else Some (takeWhile is_digit s, dropWhile is_digit s))"

definition next_component :: "string \<Rightarrow> (string \<times> string) option" where
  "next_component s =
     (case s of [] \<Rightarrow> None | c # t \<Rightarrow> if c = CHR ''.'' then version_component t else None)"

text \<open>
  Modelled from the spec: \<open>semver.valid\<close> belongs to the semver package, which is not
  among the sources. The spec calls a version concrete when the string matches
  \<open>MAJOR.MINOR.PATCH[-prerelease]\<close>.
\<close>

definition spec_valid :: "string \<Rightarrow> bool" where
  "spec_valid s =
     (case version_component s of
        None \<Rightarrow> False
      | Some (major, r1) \<Rightarrow>
          (case next_component r1 of
             None \<Rightarrow> False
           | Some (minor, r2) \<Rightarrow>
               (case next_component r2 of
                  None \<Rightarrow> False
                | Some (patch, r3) \<Rightarrow>
                    (case r3 of
                       [] \<Rightarrow> True
                     | c # t \<Rightarrow> c = CHR ''-'' \<and> t \<noteq> [] \<and> list_all is_prerelease_char t))))"

text \<open>
  Modelled from the spec: \<open>semver.coerce\<close> belongs to the semver package, which is not
  among the sources. The spec describes it as taking the first contiguous \<open>N[.N[.N]]\<close>
  substring and zero-filling the missing components; it fails when there is none.
\<close>

definition spec_coerce :: "string \<Rightarrow> string option" where
  "spec_coerce s =
     (case version_component (dropWhile (\<lambda>c. \<not> is_digit c) s) of
        None \<Rightarrow> None
      | Some (major, r1) \<Rightarrow>
          (case next_component r1 of
             None \<Rightarrow> Some (major @ ''.0.0'')
           | Some (minor, r2) \<Rightarrow>
               (case next_component r2 of
                  None \<Rightarrow> Some (major @ ''.'' @ minor @ ''.0'')
                | Some (patch, r3) \<Rightarrow> Some (major @ ''.'' @ minor @ ''.'' @ patch))))"

text \<open>
  A registry given by a table of manifests, for running the program on concrete inputs:
  the first manifest of a name is the one its tag \<open>latest\<close> points to, a name that is
  not in the table is answered with E404, and a version that is not in the table with
  ETARGET and the dist-tags of the name.
\<close>

definition table_manifest :: "manifest list \<Rightarrow> string \<Rightarrow> string option \<Rightarrow> error + manifest" where
  "table_manifest tab n v =
     (case filter (\<lambda>m. man_name m = n) tab of
        [] \<Rightarrow> Inl E404
      | m0 # ms \<Rightarrow>
          (case v of
             None \<Rightarrow> Inr m0
           | Some ver \<Rightarrow>
               if ver = ''latest'' then Inr m0
               else (case find (\<lambda>m. man_version m = ver) (m0 # ms) of
                       Some m \<Rightarrow> Inr m
                     | None \<Rightarrow> Inl (ETARGET [(''latest'', man_version m0)]))))"

definition table_packument :: "manifest list \<Rightarrow> string \<Rightarrow> error + packument" where
  "table_packument tab n =
     (case filter (\<lambda>m. man_name m = n) tab of
        [] \<Rightarrow> Inl E404
      | m0 # ms \<Rightarrow> Inr \<lparr>dist_tags = [(''latest'', man_version m0)]\<rparr>)"

definition table_libs :: "manifest list \<Rightarrow> libs" where
  "table_libs tab =
     \<lparr>semver_valid = spec_valid, semver_coerce = spec_coerce,
      pacote_manifest = table_manifest tab, pacote_packument = table_packument tab,
      pacote_tarball_toFile = (\<lambda>name version path. None)\<rparr>"

definition mk_manifest :: "string \<Rightarrow> string \<Rightarrow> js_object \<Rightarrow> manifest" where
  "mk_manifest n v deps =
     \<lparr>man_name = n, man_version = v, dependencies = deps, devDependencies = [],
      peerDependencies = [], optionalDependencies = [], isLatest = False\<rparr>"

text \<open>The options object the command line passes: no \<open>depth\<close>, no \<open>progress\<close>.\<close>

definition fresh_options :: options where
  "fresh_options =
     \<lparr>dev = False, peer = False, optional = False, registry = None, logger = True,
      depth = None, progress = None\<rparr>"

definition fresh_world :: world where
  "fresh_world = \<lparr>w_options = fresh_options, resolved = resolvedPackages_clean {}, events = [], console = []\<rparr>"

text \<open>The cycle \<open>a@1.0.0 \<rightarrow> b@1.0.0 \<rightarrow> a@1.0.0\<close> and the root manifest of the seed \<open>a@1.0.0\<close>.\<close>

definition cycle_table :: "manifest list" where
  "cycle_table =
     [mk_manifest ''a'' ''1.0.0'' [(''b'', ''1.0.0'')],
      mk_manifest ''b'' ''1.0.0'' [(''a'', ''1.0.0'')]]"

definition cycle_root :: manifest where
  "cycle_root = mk_manifest ''root'' ''0.0.0'' [(''a'', ''1.0.0'')]"

text \<open>Two root edges: \<open>a\<close> depends on \<open>c\<close>, \<open>b\<close> and \<open>c\<close> are leaves.\<close>

definition tree_table :: "manifest list" where
  "tree_table =
     [mk_manifest ''a'' ''1.0.0'' [(''c'', ''1.0.0'')],
      mk_manifest ''b'' ''1.0.0'' [],
      mk_manifest ''c'' ''1.0.0'' []]"

definition tree_root :: manifest where
  "tree_root = mk_manifest ''root'' ''0.0.0'' [(''a'', ''1.0.0''), (''b'', ''1.0.0'')]"

text \<open>Two root edges: \<open>a\<close> is a leaf, \<open>b\<close> depends on the leaf \<open>c\<close>.\<close>

definition progress_table :: "manifest list" where
  "progress_table =
     [mk_manifest ''a'' ''1.0.0'' [],
      mk_manifest ''b'' ''1.0.0'' [(''c'', ''1.0.0'')],
      mk_manifest ''c'' ''1.0.0'' []]"

text \<open>A registry that answers every manifest query with \<open>c@1.0.0\<close>, whatever the name asked.\<close>

definition alias_libs :: libs where
  "alias_libs =
     \<lparr>semver_valid = spec_valid, semver_coerce = spec_coerce,
      pacote_manifest = (\<lambda>n v. Inr (mk_manifest ''c'' ''1.0.0'' [])),
      pacote_packument = (\<lambda>n. Inr \<lparr>dist_tags = [(''latest'', ''1.0.0'')]\<rparr>),
      pacote_tarball_toFile = (\<lambda>name version path. None)\<rparr>"

definition alias_root :: manifest where
  "alias_root = mk_manifest ''root'' ''0.0.0'' [(''a'', ''^1.0.0''), (''b'', ''1.0.0'')]"

text \<open>A registry whose manifests are those of the tree, and whose packuments all fail.\<close>

definition nopackument_libs :: libs where
  "nopackument_libs = (table_libs tree_table)\<lparr>pacote_packument := (\<lambda>n. Inl (OtherError ''ECONNRESET''))\<rparr>"

text \<open>A registry that cannot be reached: every manifest query fails with a network error.\<close>

definition offline_libs :: libs where
  "offline_libs = (table_libs [])\<lparr>pacote_manifest := (\<lambda>n v. Inl (OtherError ''ECONNRESET''))\<rparr>"

text \<open>A tarball writer that fails for the package \<open>a\<close> and succeeds for every other.\<close>

definition failing_libs :: libs where
  "failing_libs =
     (table_libs tree_table)\<lparr>pacote_tarball_toFile :=
        (\<lambda>name version path. if name = ''a'' then Some (OtherError ''EACCES'') else None)\<rparr>"

definition cache_options :: download_options where
  "cache_options = \<lparr>dl_logger = True, destFolder = Some ''out'', useCache = True, dl_registry = None\<rparr>"

definition pkg :: "string \<Rightarrow> string \<Rightarrow> bool \<Rightarrow> package" where
  "pkg n v l = \<lparr>pkg_name = n, pkg_version = v, pkg_isLatest = l\<rparr>"

text \<open>A manifest with the same name in the dev and in the optional dependencies.\<close>

definition collision_manifest :: manifest where
  "collision_manifest =
     \<lparr>man_name = ''root'', man_version = ''0.0.0'', dependencies = [(''x'', ''1.0.0'')],
      devDependencies = [(''x'', ''2.0.0'')], peerDependencies = [(''x'', ''3.0.0'')],
      optionalDependencies = [(''x'', ''4.0.0'')], isLatest = False\<rparr>"

definition all_options :: options where
  "all_options = fresh_options\<lparr>dev := True, peer := True, optional := True\<rparr>"

fun isPackumentCall :: "call \<Rightarrow> bool" where
  "isPackumentCall (PackumentCall n) = True"
| "isPackumentCall (ManifestCall n v) = False"

section \<open>Properties of edge extraction\<close>

lemma js_replace_absent: "c \<notin> set s \<Longrightarrow> js_replace c r s = s"
  by (induction s) auto

lemma js_replace_first: "c \<notin> set xs \<Longrightarrow> js_replace c r (xs @ c # ys) = xs @ r @ ys"
  by (induction xs) auto

lemma map_of_assign:
  "distinct (map fst src) \<Longrightarrow> map_of (assign obj src) = map_of obj ++ map_of src"
proof (induction src arbitrary: obj)
  case Nil
  then show ?case by (simp add: assign_def)
next
  case (Cons kv src)
  obtain k v where kv: "kv = (k, v)" by (cases kv)
  from Cons.prems kv have d: "distinct (map fst src)" and nk: "k \<notin> dom (map_of src)"
    by (auto simp: dom_map_of_conv_image_fst)
  have "assign obj (kv # src) = assign (AList.update k v obj) src"
    by (simp add: assign_def kv)
  then have "map_of (assign obj (kv # src)) = (map_of obj)(k \<mapsto> v) ++ map_of src"
    by (simp only: Cons.IH [OF d] update_conv')
  also have "\<dots> = (map_of obj ++ map_of src)(k \<mapsto> v)"
    by (rule map_add_upd_left [OF nk])
  also have "\<dots> = map_of obj ++ map_of (kv # src)"
    by (simp only: kv map_of.simps fst_conv snd_conv map_add_upd)
  finally show ?case .
qed

lemma keys_assign: "fst ` set (assign obj src) = fst ` set obj \<union> fst ` set src"
proof (induction src arbitrary: obj)
  case Nil
  then show ?case by (simp add: assign_def)
next
  case (Cons kv src)
  obtain k v where kv: "kv = (k, v)" by (cases kv)
  have "assign obj (kv # src) = assign (AList.update k v obj) src"
    by (simp add: assign_def kv)
  then show ?case using Cons.IH [of "AList.update k v obj"] by (auto simp: kv dom_update)
qed

lemma distinct_assign: "distinct (map fst obj) \<Longrightarrow> distinct (map fst (assign obj src))"
proof (induction src arbitrary: obj)
  case Nil
  then show ?case by (simp add: assign_def)
next
  case (Cons kv src)
  obtain k v where kv: "kv = (k, v)" by (cases kv)
  have "assign obj (kv # src) = assign (AList.update k v obj) src"
    by (simp add: assign_def kv)
  then show ?case using Cons.IH [of "AList.update k v obj"] Cons.prems by (simp add: distinct_update)
qed

lemma mergedPackages_unfold:
  "mergedPackages m opts =
     assign (assign (assign (dependencies m) (if dev opts then devDependencies m else []))
        (if peer opts then peerDependencies m else []))
       (if optional opts then optionalDependencies m else [])"
  by (simp add: mergedPackages_def lodash_merge_def)

lemma distinct_mergedPackages:
  "wf_manifest m \<Longrightarrow> distinct (map fst (mergedPackages m opts))"
  unfolding mergedPackages_unfold wf_manifest_def by (intro distinct_assign) simp

lemma map_of_mergedPackages:
  assumes "wf_manifest m"
  shows "map_of (mergedPackages m opts) =
     map_of (dependencies m)
       ++ (if dev opts then map_of (devDependencies m) else Map.empty)
       ++ (if peer opts then map_of (peerDependencies m) else Map.empty)
       ++ (if optional opts then map_of (optionalDependencies m) else Map.empty)"
proof -
  have 1: "distinct (map fst (if dev opts then devDependencies m else []))"
    and 2: "distinct (map fst (if peer opts then peerDependencies m else []))"
    and 3: "distinct (map fst (if optional opts then optionalDependencies m else []))"
    using assms by (simp_all add: wf_manifest_def)
  show ?thesis
    unfolding mergedPackages_unfold map_of_assign [OF 3] map_of_assign [OF 2] map_of_assign [OF 1]
    by simp
qed

lemma map_of_getManifestDependencies:
  "map_of (getManifestDependencies L m opts) n = map_option (queryVersion L) (map_of (mergedPackages m opts) n)"
proof -
  have "map_of (map (\<lambda>(name, rangeString). (name, queryVersion L rangeString)) xs) n
          = map_option (queryVersion L) (map_of xs n)" for xs
    by (induction xs) auto
  then show ?thesis by (simp add: getManifestDependencies_def)
qed

lemma map_add_lookup:
  "(f ++ map_of xs) n = (if n \<in> fst ` set xs then map_of xs n else f n)"
proof (cases "map_of xs n")
  case None
  then have "n \<notin> fst ` set xs" by (simp add: map_of_eq_None_iff)
  with None show ?thesis by (simp add: map_add_def)
next
  case (Some v)
  then have "n \<in> fst ` set xs" by (metis map_of_eq_None_iff option.distinct(1))
  with Some show ?thesis by (simp add: map_add_def)
qed

text \<open>
  Claim C3, as the code has it. For a manifest whose four maps have distinct keys, the
  dependency map is the union of \<open>dependencies\<close> and of the dev, peer and optional
  dependencies that the options include, each name once; a name that stands in several
  included categories takes the range of the category merged last, so that optional wins
  over peer, peer over dev, and dev over the runtime dependencies.
\<close>

theorem edge_precedence:
  assumes "wf_manifest m"
  shows "map_of (getManifestDependencies L m opts) n =
           map_option (queryVersion L)
             (if optional opts \<and> n \<in> fst ` set (optionalDependencies m) then map_of (optionalDependencies m) n
              else if peer opts \<and> n \<in> fst ` set (peerDependencies m) then map_of (peerDependencies m) n
              else if dev opts \<and> n \<in> fst ` set (devDependencies m) then map_of (devDependencies m) n
              else map_of (dependencies m) n)
         \<and> fst ` set (getManifestDependencies L m opts) =
             fst ` set (dependencies m)
               \<union> (if dev opts then fst ` set (devDependencies m) else {})
               \<union> (if peer opts then fst ` set (peerDependencies m) else {})
               \<union> (if optional opts then fst ` set (optionalDependencies m) else {})
         \<and> distinct (map fst (getManifestDependencies L m opts))"
proof (intro conjI)
  show "map_of (getManifestDependencies L m opts) n =
           map_option (queryVersion L)
             (if optional opts \<and> n \<in> fst ` set (optionalDependencies m) then map_of (optionalDependencies m) n
              else if peer opts \<and> n \<in> fst ` set (peerDependencies m) then map_of (peerDependencies m) n
              else if dev opts \<and> n \<in> fst ` set (devDependencies m) then map_of (devDependencies m) n
              else map_of (dependencies m) n)"
    unfolding map_of_getManifestDependencies map_of_mergedPackages [OF assms]
    by (cases "optional opts"; cases "peer opts"; cases "dev opts") (simp_all add: map_add_lookup)
  have "map fst (getManifestDependencies L m opts) = map fst (mergedPackages m opts)"
    by (simp add: getManifestDependencies_def case_prod_unfold comp_def)
  then have k: "fst ` set (getManifestDependencies L m opts) = fst ` set (mergedPackages m opts)"
    and d: "distinct (map fst (getManifestDependencies L m opts)) = distinct (map fst (mergedPackages m opts))"
    by (simp_all only: set_map [symmetric])
  show "fst ` set (getManifestDependencies L m opts) =
             fst ` set (dependencies m)
               \<union> (if dev opts then fst ` set (devDependencies m) else {})
               \<union> (if peer opts then fst ` set (peerDependencies m) else {})
               \<union> (if optional opts then fst ` set (optionalDependencies m) else {})"
    unfolding k mergedPackages_unfold keys_assign
    by (cases "optional opts"; cases "peer opts"; cases "dev opts") simp_all
  show "distinct (map fst (getManifestDependencies L m opts))"
    unfolding d by (rule distinct_mergedPackages [OF assms])
qed

lemma wf_collision: "wf_manifest collision_manifest"
  by (simp add: wf_manifest_def collision_manifest_def)


lemma queryVersion_plain:
  "queryVersion (table_libs []) ''4.0.0'' = ''4.0.0''"
  "queryVersion (table_libs []) ''3.0.0'' = ''3.0.0''"
  by code_simp+

text \<open>The theorem of C3 on a manifest that has the name \<open>x\<close> in all four categories.\<close>

theorem edge_precedence_witness:
  "wf_manifest collision_manifest
   \<and> map_of (getManifestDependencies (table_libs []) collision_manifest all_options) ''x'' = Some ''4.0.0''
   \<and> map_of (getManifestDependencies (table_libs []) collision_manifest (all_options\<lparr>optional := False\<rparr>)) ''x'' = Some ''3.0.0''"
proof -
  note e1 = edge_precedence [OF wf_collision, of "table_libs []" all_options "''x''", THEN conjunct1]
  note e2 = edge_precedence [OF wf_collision, of "table_libs []" "all_options\<lparr>optional := False\<rparr>" "''x''",
      THEN conjunct1]
  have "map_of (getManifestDependencies (table_libs []) collision_manifest all_options) ''x'' = Some ''4.0.0''"
    unfolding e1
    by (simp add: collision_manifest_def all_options_def fresh_options_def queryVersion_plain)
  moreover have "map_of (getManifestDependencies (table_libs []) collision_manifest
                    (all_options\<lparr>optional := False\<rparr>)) ''x'' = Some ''3.0.0''"
    unfolding e2
    by (simp add: collision_manifest_def all_options_def fresh_options_def queryVersion_plain)
  ultimately show ?thesis using wf_collision by simp
qed

text \<open>
  C3 as stated gives dev the highest precedence; with all categories included the edge
  for \<open>x\<close> carries the optional range \<open>4.0.0\<close>, not the dev range \<open>2.0.0\<close>.
\<close>

theorem dev_precedence_counterexample:
  "map_of (getManifestDependencies (table_libs []) collision_manifest all_options) ''x'' = Some ''4.0.0''
   \<and> map_of (devDependencies collision_manifest) ''x'' = Some ''2.0.0''
   \<and> queryVersion (table_libs []) ''2.0.0'' = ''2.0.0''"
  by code_simp

section \<open>Properties of the version coercer\<close>

lemma cleanVersion_caret: "CHR ''^'' \<notin> set a \<Longrightarrow> cleanVersion (a @ CHR ''^'' # b) = js_replace (CHR ''~'') [] (a @ b)"
  by (simp add: cleanVersion_def js_replace_first)

lemma cleanVersion_tilde:
  "CHR ''^'' \<notin> set (a @ b) \<Longrightarrow> CHR ''~'' \<notin> set a \<Longrightarrow> cleanVersion (a @ CHR ''~'' # b) = a @ b"
  by (simp add: cleanVersion_def js_replace_first js_replace_absent)

lemma cleanVersion_none:
  "CHR ''^'' \<notin> set r \<Longrightarrow> CHR ''~'' \<notin> set r \<Longrightarrow> cleanVersion r = r"
  by (simp add: cleanVersion_def js_replace_absent)

text \<open>
  Claim C4, as the code has it. The cleaned string is the range without its first \<open>^\<close>
  and without its first \<open>~\<close>, wherever they stand. If the cleaned string is a valid
  version, the range is returned as it was given, prefix included; otherwise the result
  is the coercion of the cleaned string, or \<open>latest\<close> when the coercion fails. The
  function is total, and its result depends on the range string (and the semver library)
  alone.
\<close>

theorem queryVersion_cases:
  "(semver_valid L (cleanVersion r) \<longrightarrow> queryVersion L r = r)
   \<and> (\<not> semver_valid L (cleanVersion r) \<longrightarrow>
        queryVersion L r = (case semver_coerce L (cleanVersion r) of None \<Rightarrow> ''latest'' | Some v \<Rightarrow> v))
   \<and> (CHR ''^'' \<notin> set r \<and> CHR ''~'' \<notin> set r \<longrightarrow> cleanVersion r = r)
   \<and> (\<forall>a b. r = a @ CHR ''^'' # b \<and> CHR ''^'' \<notin> set a \<longrightarrow>
         cleanVersion r = js_replace (CHR ''~'') [] (a @ b))
   \<and> (\<forall>a b. r = a @ CHR ''~'' # b \<and> CHR ''~'' \<notin> set a \<and> CHR ''^'' \<notin> set r \<longrightarrow>
         cleanVersion r = a @ b)"
proof (intro conjI impI allI)
  show "queryVersion L r = r" if "semver_valid L (cleanVersion r)"
    using that by (simp add: queryVersion_def)
  show "queryVersion L r = (case semver_coerce L (cleanVersion r) of None \<Rightarrow> ''latest'' | Some v \<Rightarrow> v)"
    if "\<not> semver_valid L (cleanVersion r)"
    using that by (simp add: queryVersion_def)
  show "cleanVersion r = r" if "CHR ''^'' \<notin> set r \<and> CHR ''~'' \<notin> set r"
    using that by (simp add: cleanVersion_none)
  show "cleanVersion r = js_replace (CHR ''~'') [] (a @ b)"
    if "r = a @ CHR ''^'' # b \<and> CHR ''^'' \<notin> set a" for a b
    using that by (simp add: cleanVersion_caret)
  show "cleanVersion r = a @ b"
    if "r = a @ CHR ''~'' # b \<and> CHR ''~'' \<notin> set a \<and> CHR ''^'' \<notin> set r" for a b
    using that cleanVersion_tilde [of a b] by auto
qed

lemma spec_semver_values:
  "cleanVersion ''1.2'' = ''1.2''"
  "\<not> spec_valid ''1.2''"
  "spec_coerce ''1.2'' = Some ''1.2.0''"
  "cleanVersion ''^1.2.3'' = ''1.2.3''"
  "spec_valid ''1.2.3''"
  "cleanVersion ''garbage'' = ''garbage''"
  "\<not> spec_valid ''garbage''"
  "spec_coerce ''garbage'' = None"
  by code_simp+

text \<open>The theorem of C4 on \<open>1.2\<close>, \<open>garbage\<close>, \<open>^1.2.3\<close> and \<open>~1.2\<close>.\<close>

theorem queryVersion_cases_witness:
  "queryVersion (table_libs []) ''1.2'' = ''1.2.0''
   \<and> queryVersion (table_libs []) ''garbage'' = ''latest''
   \<and> queryVersion (table_libs []) ''^1.2.3'' = ''^1.2.3''
   \<and> cleanVersion ''^1.2.3'' = ''1.2.3''
   \<and> cleanVersion ''~1.2'' = ''1.2''
   \<and> queryVersion (table_libs []) ''~1.2'' = ''1.2.0''"
proof -
  have t: "''~1.2'' = [] @ CHR ''~'' # ''1.2''" by simp
  have nt: "CHR ''~'' \<notin> set []" "CHR ''^'' \<notin> set ''~1.2''" by simp_all
  have c: "cleanVersion ''~1.2'' = ''1.2''"
    using queryVersion_cases [of "table_libs []" "''~1.2''"] t nt by (metis append_Nil)
  have q: "queryVersion (table_libs []) ''~1.2'' = ''1.2.0''"
    using queryVersion_cases [of "table_libs []" "''~1.2''"]
    by (simp add: c spec_semver_values table_libs_def)
  show ?thesis
    using queryVersion_cases [of "table_libs []" "''1.2''"]
      queryVersion_cases [of "table_libs []" "''garbage''"]
      queryVersion_cases [of "table_libs []" "''^1.2.3''"] c q
    by (simp add: spec_semver_values table_libs_def)
qed

text \<open>
  C4 as stated turns \<open>^1.2.3\<close> into \<open>1.2.3\<close>; the code tests the cleaned string
  \<open>1.2.3\<close> and returns the range \<open>^1.2.3\<close>.
\<close>

theorem caret_kept_counterexample:
  "spec_valid (cleanVersion ''^1.2.3'') \<and> queryVersion (table_libs []) ''^1.2.3'' \<noteq> ''1.2.3''"
  by code_simp

section \<open>Properties of the registry client\<close>

text \<open>
  Claim C5. A manifest query that the registry answers with a manifest makes one call. On
  ETARGET the client makes exactly one more call, for the version that the tag \<open>latest\<close>
  of the error's \<open>distTags\<close> names, and settles as that call does. On E404 for a query
  other than \<open>latest\<close> it makes exactly one more call, for the bare package name (the
  client's default tag, \<open>latest\<close>), and settles as that call does; on E404 for the query
  \<open>latest\<close> it makes no further call and rejects with a not-found error. Any other error
  is the rejection reason, unchanged, after the one call.
\<close>

theorem manifest_fallback:
  "(\<forall>m. pacote_manifest L n (Some v) = Inr m \<longrightarrow>
        manifestWithFallback L n v = ([ManifestCall n (Some v)], Inr m))
   \<and> (\<forall>tags l. pacote_manifest L n (Some v) = Inl (ETARGET tags) \<and> map_of tags ''latest'' = Some l \<longrightarrow>
        manifestWithFallback L n v =
          ([ManifestCall n (Some v), ManifestCall n (Some l)], pacote_manifest L n (Some l)))
   \<and> (pacote_manifest L n (Some v) = Inl E404 \<and> v \<noteq> ''latest'' \<longrightarrow>
        manifestWithFallback L n v =
          ([ManifestCall n (Some v), ManifestCall n None], pacote_manifest L n None))
   \<and> (pacote_manifest L n (Some v) = Inl E404 \<and> v = ''latest'' \<longrightarrow>
        manifestWithFallback L n v =
          ([ManifestCall n (Some v)], Inl (JsError (n @ ''@'' @ v @ '' not found''))))
   \<and> (\<forall>e. pacote_manifest L n (Some v) = Inl e \<and> e \<noteq> E404 \<and> (\<forall>tags. e \<noteq> ETARGET tags) \<longrightarrow>
        manifestWithFallback L n v = ([ManifestCall n (Some v)], Inl e))"
proof (intro conjI allI impI)
  show "manifestWithFallback L n v = ([ManifestCall n (Some v)], Inr m)"
    if "pacote_manifest L n (Some v) = Inr m" for m
    using that by (simp add: manifestWithFallback_def)
  show "manifestWithFallback L n v =
          ([ManifestCall n (Some v), ManifestCall n (Some l)], pacote_manifest L n (Some l))"
    if "pacote_manifest L n (Some v) = Inl (ETARGET tags) \<and> map_of tags ''latest'' = Some l" for tags l
    using that by (simp add: manifestWithFallback_def distTags_latest_def)
  show "manifestWithFallback L n v =
          ([ManifestCall n (Some v), ManifestCall n None], pacote_manifest L n None)"
    if "pacote_manifest L n (Some v) = Inl E404 \<and> v \<noteq> ''latest''"
    using that by (simp add: manifestWithFallback_def)
  show "manifestWithFallback L n v =
          ([ManifestCall n (Some v)], Inl (JsError (n @ ''@'' @ v @ '' not found'')))"
    if "pacote_manifest L n (Some v) = Inl E404 \<and> v = ''latest''"
  proof -
    have "pacote_manifest L n (Some v) = Inl E404" and "v = ''latest''"
      using that by blast+
    then show ?thesis unfolding manifestWithFallback_def by simp
  qed
  show "manifestWithFallback L n v = ([ManifestCall n (Some v)], Inl e)"
    if "pacote_manifest L n (Some v) = Inl e \<and> e \<noteq> E404 \<and> (\<forall>tags. e \<noteq> ETARGET tags)" for e
    using that by (cases e) (simp_all add: manifestWithFallback_def)
qed

lemma tree_queries:
  "pacote_manifest (table_libs tree_table) ''a'' (Some ''9.9.9'') = Inl (ETARGET [(''latest'', ''1.0.0'')])"
  "pacote_manifest (table_libs tree_table) ''a'' (Some ''1.0.0'') = Inr (mk_manifest ''a'' ''1.0.0'' [(''c'', ''1.0.0'')])"
  "pacote_manifest (table_libs tree_table) ''zz'' (Some ''1.0.0'') = Inl E404"
  "pacote_manifest (table_libs tree_table) ''zz'' (Some ''latest'') = Inl E404"
  "pacote_manifest (table_libs tree_table) ''zz'' None = Inl E404"
  "pacote_manifest nopackument_libs ''a'' (Some ''1.0.0'') = Inr (mk_manifest ''a'' ''1.0.0'' [(''c'', ''1.0.0'')])"
  "pacote_packument nopackument_libs ''a'' = Inl (OtherError ''ECONNRESET'')"
  "pacote_packument (table_libs tree_table) ''a'' = Inr \<lparr>dist_tags = [(''latest'', ''1.0.0'')]\<rparr>"
  by code_simp+

text \<open>
  The theorem of C5 on the table registry (a missing version of \<open>a\<close>, the missing
  package \<open>zz\<close> asked by version and by \<open>latest\<close>, a version of \<open>a\<close> that exists)
  and on a registry that cannot be reached.
\<close>

theorem manifest_fallback_witness:
  "manifestWithFallback (table_libs tree_table) ''a'' ''9.9.9'' =
     ([ManifestCall ''a'' (Some ''9.9.9''), ManifestCall ''a'' (Some ''1.0.0'')],
      Inr (mk_manifest ''a'' ''1.0.0'' [(''c'', ''1.0.0'')]))
   \<and> manifestWithFallback (table_libs tree_table) ''zz'' ''1.0.0'' =
     ([ManifestCall ''zz'' (Some ''1.0.0''), ManifestCall ''zz'' None], Inl E404)
   \<and> manifestWithFallback (table_libs tree_table) ''zz'' ''latest'' =
     ([ManifestCall ''zz'' (Some ''latest'')], Inl (JsError ''zz@latest not found''))
   \<and> manifestWithFallback (table_libs tree_table) ''a'' ''1.0.0'' =
     ([ManifestCall ''a'' (Some ''1.0.0'')], Inr (mk_manifest ''a'' ''1.0.0'' [(''c'', ''1.0.0'')]))
   \<and> manifestWithFallback offline_libs ''a'' ''1.0.0'' =
     ([ManifestCall ''a'' (Some ''1.0.0'')], Inl (OtherError ''ECONNRESET''))"
proof -
  have o: "pacote_manifest offline_libs ''a'' (Some ''1.0.0'') = Inl (OtherError ''ECONNRESET'')"
    by (simp add: offline_libs_def)
  show ?thesis
    using manifest_fallback [of "table_libs tree_table" "''a''" "''9.9.9''"]
      manifest_fallback [of "table_libs tree_table" "''zz''" "''1.0.0''"]
      manifest_fallback [of "table_libs tree_table" "''zz''" "''latest''"]
      manifest_fallback [of "table_libs tree_table" "''a''" "''1.0.0''"]
      manifest_fallback [of offline_libs "''a''" "''1.0.0''"]
    by (simp add: tree_queries o)
qed

lemma manifestWithFallback_calls:
  "fst (manifestWithFallback L n v) \<noteq> [] \<and> (\<forall>c \<in> set (fst (manifestWithFallback L n v)). \<not> isPackumentCall c)"
  by (simp add: manifestWithFallback_def split: sum.splits error.splits)

text \<open>
  Claim C6, as the code has it. For the query version \<open>latest\<close> the manifest is returned
  with \<open>isLatest\<close> true and no packument call is made. For any other query version the
  packument is asked for; when both it and the manifest arrive, \<open>isLatest\<close> tells whether
  the tag \<open>latest\<close> of the packument is the manifest's version. When the packument call
  fails, the lookup as a whole is rejected: no manifest is returned for the edge.
\<close>

theorem isLatest_determination:
  "(v = ''latest'' \<longrightarrow>
      snd (getPackageManifest L n v) =
        (case snd (manifestWithFallback L n v) of Inl e \<Rightarrow> Inl e | Inr m \<Rightarrow> Inr (m\<lparr>isLatest := True\<rparr>))
      \<and> (\<forall>c \<in> set (fst (getPackageManifest L n v)). \<not> isPackumentCall c))
   \<and> (v \<noteq> ''latest'' \<longrightarrow> PackumentCall n \<in> set (fst (getPackageManifest L n v)))
   \<and> (\<forall>m p. v \<noteq> ''latest'' \<and> snd (manifestWithFallback L n v) = Inr m \<and> pacote_packument L n = Inr p \<longrightarrow>
        snd (getPackageManifest L n v) =
          Inr (m\<lparr>isLatest := (map_of (dist_tags p) ''latest'' = Some (man_version m))\<rparr>))
   \<and> (\<forall>e. v \<noteq> ''latest'' \<and> pacote_packument L n = Inl e \<longrightarrow>
        (\<exists>e'. snd (getPackageManifest L n v) = Inl e'))"
proof (intro conjI allI impI ballI)
  show "snd (getPackageManifest L n v) =
        (case snd (manifestWithFallback L n v) of Inl e \<Rightarrow> Inl e | Inr m \<Rightarrow> Inr (m\<lparr>isLatest := True\<rparr>))"
    if "v = ''latest''"
    using that by (simp add: getPackageManifest_def case_prod_unfold Let_def)
  show "\<not> isPackumentCall c" if "v = ''latest''" "c \<in> set (fst (getPackageManifest L n v))" for c
    using that manifestWithFallback_calls [of L n v]
    by (simp add: getPackageManifest_def case_prod_unfold Let_def)
  show "PackumentCall n \<in> set (fst (getPackageManifest L n v))" if "v \<noteq> ''latest''"
    using that by (simp add: getPackageManifest_def case_prod_unfold Let_def)
  show "snd (getPackageManifest L n v) =
          Inr (m\<lparr>isLatest := (map_of (dist_tags p) ''latest'' = Some (man_version m))\<rparr>)"
    if "v \<noteq> ''latest'' \<and> snd (manifestWithFallback L n v) = Inr m \<and> pacote_packument L n = Inr p" for m p
    using that by (simp add: getPackageManifest_def case_prod_unfold Let_def)
  show "\<exists>e'. snd (getPackageManifest L n v) = Inl e'"
    if "v \<noteq> ''latest'' \<and> pacote_packument L n = Inl e" for e
    using that by (simp add: getPackageManifest_def case_prod_unfold Let_def split: sum.splits)
qed

text \<open>
  The theorem of C6 on \<open>a@latest\<close> and \<open>a@1.0.0\<close> of the table registry, and on
  \<open>a@1.0.0\<close> of the registry whose packuments fail.
\<close>

theorem isLatest_determination_witness:
  "snd (getPackageManifest (table_libs tree_table) ''a'' ''latest'') =
      Inr ((mk_manifest ''a'' ''1.0.0'' [(''c'', ''1.0.0'')])\<lparr>isLatest := True\<rparr>)
   \<and> snd (getPackageManifest (table_libs tree_table) ''a'' ''1.0.0'') =
      Inr ((mk_manifest ''a'' ''1.0.0'' [(''c'', ''1.0.0'')])\<lparr>isLatest := True\<rparr>)
   \<and> (\<exists>e'. snd (getPackageManifest nopackument_libs ''a'' ''1.0.0'') = Inl e')"
proof -
  have m1: "snd (manifestWithFallback (table_libs tree_table) ''a'' ''latest'') =
              Inr (mk_manifest ''a'' ''1.0.0'' [(''c'', ''1.0.0'')])"
    and m2: "snd (manifestWithFallback (table_libs tree_table) ''a'' ''1.0.0'') =
              Inr (mk_manifest ''a'' ''1.0.0'' [(''c'', ''1.0.0'')])"
    by code_simp+
  show ?thesis
    using isLatest_determination [of "''latest''" "table_libs tree_table" "''a''"]
      isLatest_determination [of "''1.0.0''" "table_libs tree_table" "''a''"]
      isLatest_determination [of "''1.0.0''" nopackument_libs "''a''"]
    by (simp add: m1 m2 tree_queries mk_manifest_def)
qed

text \<open>
  C6 as stated lets the edge resolve with \<open>isLatest\<close> false when the packument fails. The
  manifest of \<open>a@1.0.0\<close> arrives and the packument of \<open>a\<close> fails: the lookup is
  rejected with the packument's error, and the resolver emits nothing for the edge.
\<close>

theorem packument_failure_counterexample:
  "pacote_manifest nopackument_libs ''a'' (Some ''1.0.0'') = Inr (mk_manifest ''a'' ''1.0.0'' [(''c'', ''1.0.0'')])
   \<and> pacote_packument nopackument_libs ''a'' = Inl (OtherError ''ECONNRESET'')
   \<and> snd (getPackageManifest nopackument_libs ''a'' ''1.0.0'') = Inl (OtherError ''ECONNRESET'')
   \<and> map_option fst (resolveDependencies 2 nopackument_libs (mk_manifest ''root'' ''0.0.0'' [(''a'', ''1.0.0'')]) fresh_world) = Some []"
  by code_simp

section \<open>Properties of the downloader\<close>

lemma tarballPath_scoped:
  "CHR ''/'' \<notin> set a \<Longrightarrow>
     tarballPath d (a @ CHR ''/'' # b) v l =
       d @ ''/'' @ a @ ''-'' @ b @ ''-'' @ v @ (if l then ''-latest'' else []) @ ''.tgz''"
  by (simp add: tarballPath_def js_replace_first)

lemma tarballPath_plain:
  "CHR ''/'' \<notin> set n \<Longrightarrow>
     tarballPath d n v l = d @ ''/'' @ n @ ''-'' @ v @ (if l then ''-latest'' else []) @ ''.tgz''"
  by (simp add: tarballPath_def js_replace_absent)

lemma downloadOne_fields:
  "dl_result (downloadOne L opts dest len s p) =
     dl_result s @ [Fulfilled (if written L dest p then Some p else None)]"
  "dl_cache (downloadOne L opts dest len s p) =
     (if useCache opts \<and> written L dest p then insert (pkg_name p, pkg_version p) (dl_cache s) else dl_cache s)"
  "dl_console (downloadOne L opts dest len s p) =
     dl_console s @ (case pacote_tarball_toFile L (pkg_name p) (pkg_version p)
                            (tarballPath dest (pkg_name p) (pkg_version p) (pkg_isLatest p)) of
                       None \<Rightarrow> [] | Some e \<Rightarrow> [e])"
  "dl_files (downloadOne L opts dest len s p) =
     dl_files s @ [tarballPath dest (pkg_name p) (pkg_version p) (pkg_isLatest p)]"
  by (simp_all add: downloadOne_def downloadPackageTarball_def written_def cache_add_def
      split: option.splits)

lemma foldl_downloadOne:
  "dl_result (foldl (downloadOne L opts dest len) s todo) =
     dl_result s @ map (\<lambda>p. Fulfilled (if written L dest p then Some p else None)) todo
   \<and> dl_cache (foldl (downloadOne L opts dest len) s todo) =
     (if useCache opts
      then dl_cache s \<union> (\<lambda>p. (pkg_name p, pkg_version p)) ` {p \<in> set todo. written L dest p}
      else dl_cache s)
   \<and> dl_console (foldl (downloadOne L opts dest len) s todo) =
     dl_console s @ concat (map (\<lambda>p. case pacote_tarball_toFile L (pkg_name p) (pkg_version p)
                            (tarballPath dest (pkg_name p) (pkg_version p) (pkg_isLatest p)) of
                       None \<Rightarrow> [] | Some e \<Rightarrow> [e]) todo)
   \<and> dl_files (foldl (downloadOne L opts dest len) s todo) =
     dl_files s @ map (\<lambda>p. tarballPath dest (pkg_name p) (pkg_version p) (pkg_isLatest p)) todo"
proof (induction todo arbitrary: s)
  case Nil
  show ?case by simp
next
  case (Cons p todo)
  show ?case
    unfolding foldl_Cons
    apply (intro conjI)
       apply (simp add: Cons.IH [of "downloadOne L opts dest len s p"] downloadOne_fields)
      apply (simp only: Cons.IH [of "downloadOne L opts dest len s p"] downloadOne_fields)
      apply (cases "useCache opts"; cases "written L dest p"; simp; blast)
     apply (simp add: Cons.IH [of "downloadOne L opts dest len s p"] downloadOne_fields)
    apply (simp add: Cons.IH [of "downloadOne L opts dest len s p"] downloadOne_fields)
    done
qed

text \<open>
  Claim C7. The path handed to the tarball writer is the destination directory, a slash,
  the name with its first slash replaced by a hyphen, a hyphen, the version, \<open>-latest\<close>
  exactly when \<open>isLatest\<close> is true, and \<open>.tgz\<close>. The downloader hands over one path per
  element it downloads, computed from the element's name, version and \<open>isLatest\<close> alone,
  and never more paths than it was given elements.
\<close>

theorem tarball_filename:
  "(CHR ''/'' \<notin> set a \<longrightarrow>
      tarballPath d (a @ CHR ''/'' # b) v l =
        d @ ''/'' @ a @ ''-'' @ b @ ''-'' @ v @ (if l then ''-latest'' else []) @ ''.tgz'')
   \<and> (CHR ''/'' \<notin> set n \<longrightarrow>
      tarballPath d n v l = d @ ''/'' @ n @ ''-'' @ v @ (if l then ''-latest'' else []) @ ''.tgz'')
   \<and> fst (downloadPackageTarball L n v d l) = tarballPath d n v l
   \<and> dl_files (downloadPackages L ps opts cache) =
       map (\<lambda>p. tarballPath (destFolderOf opts) (pkg_name p) (pkg_version p) (pkg_isLatest p))
         (packagesToDownload opts cache ps)
   \<and> length (dl_files (downloadPackages L ps opts cache)) \<le> length ps"
proof (intro conjI impI)
  show "tarballPath d (a @ CHR ''/'' # b) v l =
        d @ ''/'' @ a @ ''-'' @ b @ ''-'' @ v @ (if l then ''-latest'' else []) @ ''.tgz''"
    if "CHR ''/'' \<notin> set a"
    using that by (rule tarballPath_scoped)
  show "tarballPath d n v l = d @ ''/'' @ n @ ''-'' @ v @ (if l then ''-latest'' else []) @ ''.tgz''"
    if "CHR ''/'' \<notin> set n"
    using that by (rule tarballPath_plain)
  show "fst (downloadPackageTarball L n v d l) = tarballPath d n v l"
    by (simp add: downloadPackageTarball_def)
  show f: "dl_files (downloadPackages L ps opts cache) =
       map (\<lambda>p. tarballPath (destFolderOf opts) (pkg_name p) (pkg_version p) (pkg_isLatest p))
         (packagesToDownload opts cache ps)"
    by (simp add: downloadPackages_def Let_def foldl_downloadOne)
  show "length (dl_files (downloadPackages L ps opts cache)) \<le> length ps"
    unfolding f by (simp add: packagesToDownload_def)
qed

text \<open>The theorem of C7 on a scoped and on an unscoped name.\<close>

theorem tarball_filename_witness:
  "tarballPath ''dest'' ''@scope/foo'' ''1.2.3'' True = ''dest/@scope-foo-1.2.3-latest.tgz''
   \<and> tarballPath ''dest'' ''left-pad'' ''1.3.0'' False = ''dest/left-pad-1.3.0.tgz''"
proof -
  have s: "''@scope/foo'' = ''@scope'' @ CHR ''/'' # ''foo''" by simp
  have "CHR ''/'' \<notin> set ''@scope''" "CHR ''/'' \<notin> set ''left-pad''" by simp_all
  then show ?thesis
    using tarball_filename [of "''@scope''" "''dest''" "''foo''" "''1.2.3''" True "''left-pad''"]
      tarball_filename [of "''@scope''" "''dest''" "''foo''" "''1.3.0''" False "''left-pad''"]
    unfolding s by simp
qed

text \<open>
  Claim C1, as the code has it. The result has one entry for every element to download,
  in order, and every entry is fulfilled: with the package when its tarball was fetched
  and written, with null when that failed (the \<open>catch\<close> handler prints the error and
  returns null). No entry is a rejection. One error is printed per failed element. The
  tarball cache gains the pairs of the elements that were written, when the cache is in
  use, and nothing else.
\<close>

theorem downloadPackages_settles:
  "dl_result (downloadPackages L ps opts cache) =
     map (\<lambda>p. Fulfilled (if written L (destFolderOf opts) p then Some p else None))
       (packagesToDownload opts cache ps)
   \<and> (\<forall>r \<in> set (dl_result (downloadPackages L ps opts cache)). \<not> isRejected r)
   \<and> dl_cache (downloadPackages L ps opts cache) =
       (if useCache opts
        then cache \<union> (\<lambda>p. (pkg_name p, pkg_version p)) `
               {p \<in> set (packagesToDownload opts cache ps). written L (destFolderOf opts) p}
        else cache)
   \<and> length (dl_console (downloadPackages L ps opts cache)) =
       length (filter (\<lambda>p. \<not> written L (destFolderOf opts) p) (packagesToDownload opts cache ps))"
proof (intro conjI)
  show r: "dl_result (downloadPackages L ps opts cache) =
     map (\<lambda>p. Fulfilled (if written L (destFolderOf opts) p then Some p else None))
       (packagesToDownload opts cache ps)"
    by (simp add: downloadPackages_def Let_def foldl_downloadOne)
  show "\<forall>r \<in> set (dl_result (downloadPackages L ps opts cache)). \<not> isRejected r"
    unfolding r by auto
  show "dl_cache (downloadPackages L ps opts cache) =
       (if useCache opts
        then cache \<union> (\<lambda>p. (pkg_name p, pkg_version p)) `
               {p \<in> set (packagesToDownload opts cache ps). written L (destFolderOf opts) p}
        else cache)"
    by (simp add: downloadPackages_def Let_def foldl_downloadOne)
  have "length (concat (map (\<lambda>p. case pacote_tarball_toFile L (pkg_name p) (pkg_version p)
                            (tarballPath dest (pkg_name p) (pkg_version p) (pkg_isLatest p)) of
                       None \<Rightarrow> [] | Some e \<Rightarrow> [e]) todo)) =
        length (filter (\<lambda>p. \<not> written L dest p) todo)" for dest todo
    by (induction todo) (auto simp: written_def split: option.splits)
  then show "length (dl_console (downloadPackages L ps opts cache)) =
       length (filter (\<lambda>p. \<not> written L (destFolderOf opts) p) (packagesToDownload opts cache ps))"
    by (simp add: downloadPackages_def Let_def foldl_downloadOne)
qed

lemma failing_values:
  "packagesToDownload cache_options {} [pkg ''a'' ''1.0.0'' True, pkg ''b'' ''1.0.0'' False] =
     [pkg ''a'' ''1.0.0'' True, pkg ''b'' ''1.0.0'' False]"
  "\<not> written failing_libs (destFolderOf cache_options) (pkg ''a'' ''1.0.0'' True)"
  "written failing_libs (destFolderOf cache_options) (pkg ''b'' ''1.0.0'' False)"
  by code_simp+

text \<open>The theorem of C1 on a batch whose first tarball fails and whose second is written.\<close>

theorem downloadPackages_settles_witness:
  "dl_result (downloadPackages failing_libs [pkg ''a'' ''1.0.0'' True, pkg ''b'' ''1.0.0'' False] cache_options {}) =
     [Fulfilled None, Fulfilled (Some (pkg ''b'' ''1.0.0'' False))]
   \<and> dl_cache (downloadPackages failing_libs [pkg ''a'' ''1.0.0'' True, pkg ''b'' ''1.0.0'' False] cache_options {}) =
     {(''b'', ''1.0.0'')}"
proof -
  have u: "useCache cache_options" by (simp add: cache_options_def)
  have nb: "pkg ''a'' ''1.0.0'' True \<noteq> pkg ''b'' ''1.0.0'' False" by (simp add: pkg_def)
  have k: "(pkg_name (pkg ''b'' ''1.0.0'' False), pkg_version (pkg ''b'' ''1.0.0'' False)) = (''b'', ''1.0.0'')"
    by (simp add: pkg_def)
  have set_eq: "{p \<in> set [pkg ''a'' ''1.0.0'' True, pkg ''b'' ''1.0.0'' False].
                   written failing_libs (destFolderOf cache_options) p} = {pkg ''b'' ''1.0.0'' False}"
    using failing_values(2,3) by auto
  note t = downloadPackages_settles [of failing_libs "[pkg ''a'' ''1.0.0'' True, pkg ''b'' ''1.0.0'' False]"
        cache_options "{}", unfolded failing_values(1) set_eq]
  have "dl_result (downloadPackages failing_libs [pkg ''a'' ''1.0.0'' True, pkg ''b'' ''1.0.0'' False] cache_options {}) =
     [Fulfilled None, Fulfilled (Some (pkg ''b'' ''1.0.0'' False))]"
    using t [THEN conjunct1] by (simp add: failing_values)
  moreover have "dl_cache (downloadPackages failing_libs [pkg ''a'' ''1.0.0'' True, pkg ''b'' ''1.0.0'' False] cache_options {}) =
     {(''b'', ''1.0.0'')}"
    using t [THEN conjunct2, THEN conjunct2, THEN conjunct1] by (simp add: u k)
  ultimately show ?thesis by simp
qed

text \<open>
  C1 as stated reports a failed element as a rejection. The tarball of \<open>a@1.0.0\<close> fails,
  and its entry in the result is fulfilled with null.
\<close>

theorem rejection_counterexample:
  "\<not> written failing_libs (destFolderOf cache_options) (pkg ''a'' ''1.0.0'' True)
   \<and> \<not> isRejected (dl_result (downloadPackages failing_libs [pkg ''a'' ''1.0.0'' True] cache_options {}) ! 0)
   \<and> dl_result (downloadPackages failing_libs [pkg ''a'' ''1.0.0'' True] cache_options {}) = [Fulfilled None]"
  by code_simp

section \<open>Properties of the resolver\<close>

declare resolveDependencies.simps(2) [simp del] resolveChilds.simps(2) [simp del]

lemma foldl_announce:
  "resolved (foldl announce w ms) = resolved w \<union> man_key ` set ms
   \<and> w_options (foldl announce w ms) = w_options w
   \<and> console (foldl announce w ms) = console w"
  by (induction ms arbitrary: w) (auto simp: announce_def resolvedPackages_set_def man_key_def)

lemma enter_fields:
  "resolved (enter L m w) = resolved w \<union> man_key ` set (batch L m w)"
  "w_options (enter L m w) =
     (w_options w)\<lparr>depth := Some (depth_or0 (w_options w)), progress := Some (progress_or0 (w_options w))\<rparr>"
  by (simp_all add: enter_def foldl_announce)

lemma resolveDependencies_Suc:
  "resolveDependencies (Suc f) L m w =
     (if getManifestDependencies L m (w_options w) = [] then Some ([], w)
      else resolveChilds f L (length (getManifestDependencies L m (w_options w))) (batch L m w) (enter L m w))"
  by (simp add: resolveDependencies.simps(2) Let_def batch_def enter_def settledEdges_def
      resolvedPackages_get_def man_key_def)

lemma resolveChilds_Cons:
  "resolveChilds f L n (m # ms) w = Some (out, w') \<longleftrightarrow>
     (\<exists>childs w1 rest.
        resolveDependencies f L m (w\<lparr>w_options := (w_options w)\<lparr>depth := Some (depth_or0 (w_options w) + 1)\<rparr>\<rparr>)
          = Some (childs, w1)
        \<and> resolveChilds f L n ms
            (if depth (w_options w1) = Some 0
             then w1\<lparr>w_options := (w_options w1)\<lparr>progress := Some (progress_or0 (w_options w1) + 1 / of_nat n)\<rparr>\<rparr>
             else w1) = Some (rest, w')
        \<and> out = toPackage m # childs @ rest)"
  by (auto simp: resolveChilds.simps(2) Let_def split: option.splits)

lemma pkg_key_toPackage [simp]: "pkg_key (toPackage m) = man_key m"
  by (simp add: pkg_key_def toPackage_def man_key_def)

lemma depth_or0_Some: "depth opts = Some d \<Longrightarrow> depth_or0 opts = d"
  by (simp add: depth_or0_def)

lemma childs_effect:
  assumes P: "\<And>m w out w'. resolveDependencies f L m w = Some (out, w') \<Longrightarrow>
                call_effect w out w' \<and> pkg_key ` set out \<inter> resolved w = {}"
    and run: "resolveChilds f L n ms w = Some (out, w')"
    and sub: "man_key ` set ms \<subseteq> resolved w"
  shows "call_effect w out w'
         \<and> (\<forall>k \<in> pkg_key ` set out. k \<in> man_key ` set ms \<or> k \<notin> resolved w)
         \<and> man_key ` set ms \<subseteq> pkg_key ` set out"
  using run sub
proof (induction ms arbitrary: w out w')
  case Nil
  then show ?case by (simp add: call_effect_def frame_def)
next
  case (Cons m ms)
  let ?w0 = "w\<lparr>w_options := (w_options w)\<lparr>depth := Some (depth_or0 (w_options w) + 1)\<rparr>\<rparr>"
  from Cons.prems(1) obtain childs w1 rest where
    c: "resolveDependencies f L m ?w0 = Some (childs, w1)"
    and r: "resolveChilds f L n ms
            (if depth (w_options w1) = Some 0
             then w1\<lparr>w_options := (w_options w1)\<lparr>progress := Some (progress_or0 (w_options w1) + 1 / of_nat n)\<rparr>\<rparr>
             else w1) = Some (rest, w')"
    and out: "out = toPackage m # childs @ rest"
    unfolding resolveChilds_Cons by blast
  let ?w2 = "if depth (w_options w1) = Some 0
             then w1\<lparr>w_options := (w_options w1)\<lparr>progress := Some (progress_or0 (w_options w1) + 1 / of_nat n)\<rparr>\<rparr>
             else w1"
  from P [OF c] have e1: "call_effect ?w0 childs w1" and d1: "pkg_key ` set childs \<inter> resolved w = {}"
    by simp_all
  have res1: "resolved w1 = resolved w \<union> pkg_key ` set childs"
    using e1 by (simp add: call_effect_def)
  have res2: "resolved ?w2 = resolved w1" by simp
  have dep2: "depth (w_options ?w2) = depth (w_options w1)" by simp
  have sub2: "man_key ` set ms \<subseteq> resolved ?w2"
    using Cons.prems(2) unfolding res2 res1 by auto
  from Cons.IH [OF r sub2]
  have e2: "call_effect ?w2 rest w'"
    and k2: "\<forall>k \<in> pkg_key ` set rest. k \<in> man_key ` set ms \<or> k \<notin> resolved ?w2"
    and s2: "man_key ` set ms \<subseteq> pkg_key ` set rest"
    by simp_all
  have km: "man_key m \<in> resolved w" using Cons.prems(2) by simp
  have res': "resolved w' = resolved w \<union> pkg_key ` set out"
  proof -
    have "resolved w' = resolved ?w2 \<union> pkg_key ` set rest"
      using e2 unfolding call_effect_def by blast
    then show ?thesis unfolding res2 res1 out using km by auto
  qed
  have f1: "frame (w_options ?w0) (w_options w1)" using e1 unfolding call_effect_def by blast
  have f2: "frame (w_options ?w2) (w_options w')" using e2 unfolding call_effect_def by blast
  have fr: "frame (w_options w) (w_options w')"
  proof -
    have a: "frame (w_options w) (w_options w1)" using f1 by (simp add: frame_def)
    have b: "frame (w_options w1) (w_options w')" using f2 by (simp add: frame_def split: if_splits)
    from a b show ?thesis by (simp add: frame_def)
  qed
  have dw1: "depth (w_options w1) = Some (depth_or0 (w_options w) + 1 + int (length childs))"
    using e1 by (simp add: call_effect_def)
  have dw': "depth (w_options w') = Some (depth_or0 (w_options w) + int (length out))"
  proof -
    have "depth (w_options ?w2) = Some (depth_or0 (w_options w) + 1 + int (length childs))"
      unfolding dep2 by (rule dw1)
    then have "depth (w_options w') = Some (depth_or0 (w_options w) + 1 + int (length childs) + int (length rest))"
      using e2 unfolding call_effect_def by blast
    then show ?thesis by (simp add: out)
  qed
  have dp: "\<forall>d. depth (w_options w) = Some d \<longrightarrow> depth (w_options w') = Some (d + int (length out))"
    using dw' by (simp add: depth_or0_def)
  have pn: "progress (w_options w) \<noteq> None \<longrightarrow> progress (w_options w') \<noteq> None"
  proof
    assume "progress (w_options w) \<noteq> None"
    then have "progress (w_options ?w0) \<noteq> None" by simp
    then have "progress (w_options w1) \<noteq> None" using e1 unfolding call_effect_def by blast
    then have "progress (w_options ?w2) \<noteq> None" by simp
    then show "progress (w_options w') \<noteq> None" using e2 unfolding call_effect_def by blast
  qed
  have pr: "0 \<le> depth_or0 (w_options w) \<longrightarrow> progress_or0 (w_options w') = progress_or0 (w_options w)"
  proof
    assume nn: "0 \<le> depth_or0 (w_options w)"
    then have "0 \<le> depth_or0 (w_options ?w0)" by (simp add: depth_or0_def)
    then have p1: "progress_or0 (w_options w1) = progress_or0 (w_options ?w0)"
      using e1 unfolding call_effect_def by blast
    have p0: "progress_or0 (w_options ?w0) = progress_or0 (w_options w)" by (simp add: progress_or0_def)
    from nn dw1 have nz: "depth (w_options w1) \<noteq> Some 0" by simp
    then have w2: "?w2 = w1" by simp
    from nn dw1 have "0 \<le> depth_or0 (w_options w1)" by (simp add: depth_or0_def)
    then have "0 \<le> depth_or0 (w_options ?w2)" unfolding w2 .
    then have "progress_or0 (w_options w') = progress_or0 (w_options ?w2)"
      using e2 unfolding call_effect_def by blast
    also have "progress_or0 (w_options ?w2) = progress_or0 (w_options w1)"
      by (simp only: w2)
    also note p1
    also note p0
    finally show "progress_or0 (w_options w') = progress_or0 (w_options w)" .
  qed
  have eff: "call_effect w out w'"
    unfolding call_effect_def using res' fr dp pn pr by blast
  have keys: "\<forall>k \<in> pkg_key ` set out. k \<in> man_key ` set (m # ms) \<or> k \<notin> resolved w"
  proof
    fix k assume "k \<in> pkg_key ` set out"
    then consider "k = man_key m" | "k \<in> pkg_key ` set childs" | "k \<in> pkg_key ` set rest"
      unfolding out by auto
    then show "k \<in> man_key ` set (m # ms) \<or> k \<notin> resolved w"
    proof cases
      case 1 then show ?thesis by simp
    next
      case 2 then show ?thesis using d1 by auto
    next
      case 3
      with k2 have "k \<in> man_key ` set ms \<or> k \<notin> resolved ?w2" by blast
      then show ?thesis unfolding res2 res1 by auto
    qed
  qed
  have "man_key ` set (m # ms) \<subseteq> pkg_key ` set out"
    using s2 unfolding out by auto
  with eff keys show ?case by blast
qed

lemma batch_new: "m \<in> set (batch L man w) \<Longrightarrow> man_key m \<notin> resolved w"
  by (simp add: batch_def)

lemma call_effect_step:
  assumes Q: "\<And>n ms w out w'. resolveChilds f L n ms w = Some (out, w') \<Longrightarrow> man_key ` set ms \<subseteq> resolved w \<Longrightarrow>
                call_effect w out w'
                \<and> (\<forall>k \<in> pkg_key ` set out. k \<in> man_key ` set ms \<or> k \<notin> resolved w)
                \<and> man_key ` set ms \<subseteq> pkg_key ` set out"
    and run: "resolveDependencies (Suc f) L m w = Some (out, w')"
  shows "call_effect w out w' \<and> pkg_key ` set out \<inter> resolved w = {}
         \<and> (getManifestDependencies L m (w_options w) = [] \<longrightarrow> w' = w \<and> out = [])
         \<and> (getManifestDependencies L m (w_options w) \<noteq> [] \<longrightarrow>
              depth (w_options w') = Some (depth_or0 (w_options w) + int (length out))
              \<and> progress (w_options w') \<noteq> None)"
proof (cases "getManifestDependencies L m (w_options w) = []")
  case True
  with run have "w' = w" "out = []" by (simp_all add: resolveDependencies_Suc)
  with True show ?thesis by (simp add: call_effect_def frame_def)
next
  case False
  let ?w3 = "enter L m w"
  from run False have r: "resolveChilds f L (length (getManifestDependencies L m (w_options w)))
     (batch L m w) ?w3 = Some (out, w')"
    by (simp add: resolveDependencies_Suc)
  have res3: "resolved ?w3 = resolved w \<union> man_key ` set (batch L m w)" by (rule enter_fields)
  have opt3: "w_options ?w3 =
     (w_options w)\<lparr>depth := Some (depth_or0 (w_options w)), progress := Some (progress_or0 (w_options w))\<rparr>"
    by (rule enter_fields)
  have sub: "man_key ` set (batch L m w) \<subseteq> resolved ?w3" unfolding res3 by auto
  from Q [OF r sub]
  have e: "call_effect ?w3 out w'"
    and k: "\<forall>k \<in> pkg_key ` set out. k \<in> man_key ` set (batch L m w) \<or> k \<notin> resolved ?w3"
    and s: "man_key ` set (batch L m w) \<subseteq> pkg_key ` set out"
    by simp_all
  have res': "resolved w' = resolved w \<union> pkg_key ` set out"
  proof -
    have "resolved w' = resolved ?w3 \<union> pkg_key ` set out" using e unfolding call_effect_def by blast
    then show ?thesis unfolding res3 using s by auto
  qed
  have fr: "frame (w_options w) (w_options w')"
  proof -
    have "frame (w_options ?w3) (w_options w')" using e unfolding call_effect_def by blast
    then show ?thesis unfolding opt3 by (simp add: frame_def)
  qed
  have d3: "depth (w_options ?w3) = Some (depth_or0 (w_options w))" unfolding opt3 by simp
  have dw': "depth (w_options w') = Some (depth_or0 (w_options w) + int (length out))"
    using e d3 unfolding call_effect_def by blast
  have p3: "progress (w_options ?w3) \<noteq> None" unfolding opt3 by simp
  have pw': "progress (w_options w') \<noteq> None"
    using e p3 unfolding call_effect_def by blast
  have pr: "0 \<le> depth_or0 (w_options w) \<longrightarrow> progress_or0 (w_options w') = progress_or0 (w_options w)"
  proof
    assume nn: "0 \<le> depth_or0 (w_options w)"
    have "depth_or0 (w_options ?w3) = depth_or0 (w_options w)" unfolding opt3 by (simp add: depth_or0_def)
    with nn have "0 \<le> depth_or0 (w_options ?w3)" by simp
    then have "progress_or0 (w_options w') = progress_or0 (w_options ?w3)"
      using e unfolding call_effect_def by blast
    also have "\<dots> = progress_or0 (w_options w)" unfolding opt3 by (simp add: progress_or0_def)
    finally show "progress_or0 (w_options w') = progress_or0 (w_options w)" .
  qed
  have eff: "call_effect w out w'"
    unfolding call_effect_def using res' fr dw' pw' pr by (simp add: depth_or0_def)
  have dis: "pkg_key ` set out \<inter> resolved w = {}"
  proof -
    have "k \<notin> resolved w" if "k \<in> pkg_key ` set out" for k
    proof -
      from k that have "k \<in> man_key ` set (batch L m w) \<or> k \<notin> resolved ?w3" by blast
      then show ?thesis unfolding res3 using batch_new [of _ L m w] by auto
    qed
    then show ?thesis by blast
  qed
  from eff dis dw' pw' False show ?thesis by simp
qed

lemma resolve_effect:
  "resolveDependencies f L m w = Some (out, w') \<Longrightarrow>
     call_effect w out w' \<and> pkg_key ` set out \<inter> resolved w = {}
     \<and> (getManifestDependencies L m (w_options w) = [] \<longrightarrow> w' = w \<and> out = [])
     \<and> (getManifestDependencies L m (w_options w) \<noteq> [] \<longrightarrow>
          depth (w_options w') = Some (depth_or0 (w_options w) + int (length out))
          \<and> progress (w_options w') \<noteq> None)"
proof (induction f arbitrary: m w out w')
  case 0
  then show ?case by simp
next
  case (Suc f)
  show ?case
  proof (rule call_effect_step [OF _ Suc.prems])
    fix n ms w out w'
    assume "resolveChilds f L n ms w = Some (out, w')" "man_key ` set ms \<subseteq> resolved w"
    then show "call_effect w out w'
                \<and> (\<forall>k \<in> pkg_key ` set out. k \<in> man_key ` set ms \<or> k \<notin> resolved w)
                \<and> man_key ` set ms \<subseteq> pkg_key ` set out"
      using childs_effect [of f L n ms w out w'] Suc.IH by blast
  qed
qed

lemma childs_effect':
  "resolveChilds f L n ms w = Some (out, w') \<Longrightarrow> man_key ` set ms \<subseteq> resolved w \<Longrightarrow>
     call_effect w out w'
     \<and> (\<forall>k \<in> pkg_key ` set out. k \<in> man_key ` set ms \<or> k \<notin> resolved w)
     \<and> man_key ` set ms \<subseteq> pkg_key ` set out"
  using childs_effect [of f L n ms w out w'] resolve_effect [of f L] by blast

lemma resolved_grows:
  "resolveDependencies f L m w = Some (out, w') \<Longrightarrow> resolved w \<subseteq> resolved w'"
  using resolve_effect [of f L m w out w'] by (auto simp: call_effect_def)

lemma manifestWithFallback_Inr:
  "snd (manifestWithFallback L n v) = Inr m \<Longrightarrow> \<exists>q. pacote_manifest L n q = Inr m"
  unfolding manifestWithFallback_def
  by (cases "pacote_manifest L n (Some v)")
     (auto split: error.splits if_splits)

lemma getPackageManifest_Inr:
  assumes "snd (getPackageManifest L n v) = Inr m"
  shows "\<exists>q m0 b. pacote_manifest L n q = Inr m0 \<and> m = m0\<lparr>isLatest := b\<rparr>"
proof -
  obtain m0 where m0: "snd (manifestWithFallback L n v) = Inr m0" and "\<exists>b. m = m0\<lparr>isLatest := b\<rparr>"
    using assms
    by (cases "snd (manifestWithFallback L n v)")
       (auto simp: getPackageManifest_def case_prod_unfold Let_def split: if_splits sum.splits)
  with manifestWithFallback_Inr [OF m0] show ?thesis by blast
qed

lemma getPackageManifest_universe:
  "snd (getPackageManifest L n v) = Inr m \<Longrightarrow> man_key m \<in> universe L"
proof -
  assume "snd (getPackageManifest L n v) = Inr m"
  then obtain q m0 b where q: "pacote_manifest L n q = Inr m0" and m: "m = m0\<lparr>isLatest := b\<rparr>"
    using getPackageManifest_Inr by blast
  have "man_key m = man_key m0" unfolding m by (simp add: man_key_def)
  with q show ?thesis unfolding universe_def by blast
qed

lemma getPackageManifest_faithful:
  "name_faithful L \<Longrightarrow> snd (getPackageManifest L n v) = Inr m \<Longrightarrow> man_name m = n \<and> wf_manifest m"
proof -
  assume nf: "name_faithful L" and "snd (getPackageManifest L n v) = Inr m"
  then obtain q m0 b where q: "pacote_manifest L n q = Inr m0" and m: "m = m0\<lparr>isLatest := b\<rparr>"
    using getPackageManifest_Inr by blast
  from nf q have "man_name m0 = n \<and> wf_manifest m0" unfolding name_faithful_def by blast
  then show ?thesis unfolding m by (simp add: wf_manifest_def)
qed

lemma fulfilled_map:
  "m \<in> set (fulfilled (map g es)) \<Longrightarrow> \<exists>e \<in> set es. g e = Inr m"
proof (induction es)
  case Nil
  then show ?case by simp
next
  case (Cons e es)
  then show ?case by (cases "g e") auto
qed

lemma batch_origin:
  assumes "m \<in> set (batch L man w)"
  shows "\<exists>n v. snd (getPackageManifest L n v) = Inr m"
proof -
  from assms have "m \<in> set (fulfilled (settledEdges L man w))" by (simp add: batch_def)
  then show ?thesis unfolding settledEdges_def by (auto dest!: fulfilled_map)
qed

lemma batch_universe: "m \<in> set (batch L man w) \<Longrightarrow> man_key m \<in> universe L - resolved w"
  using batch_origin [of m L man w] getPackageManifest_universe [of L _ _ m] batch_new [of m L man w]
  by blast

lemma batch_wf: "name_faithful L \<Longrightarrow> m \<in> set (batch L man w) \<Longrightarrow> wf_manifest m"
  using batch_origin [of m L man w] getPackageManifest_faithful [of L _ _ m] by blast

lemma fulfilled_names:
  assumes "\<forall>n v m. (n, v) \<in> set es \<longrightarrow> g (n, v) = Inr m \<longrightarrow> man_name m = n"
  shows "set (map man_name (fulfilled (map g es))) \<subseteq> fst ` set es
         \<and> (distinct (map fst es) \<longrightarrow> distinct (map man_name (fulfilled (map g es))))"
  using assms
proof (induction es)
  case Nil
  then show ?case by simp
next
  case (Cons e es)
  obtain n v where e: "e = (n, v)" by (cases e)
  have IH: "set (map man_name (fulfilled (map g es))) \<subseteq> fst ` set es
         \<and> (distinct (map fst es) \<longrightarrow> distinct (map man_name (fulfilled (map g es))))"
    using Cons.prems by (intro Cons.IH) auto
  show ?case
  proof (cases "g e")
    case (Inl err)
    with IH show ?thesis by auto
  next
    case (Inr m)
    with Cons.prems e have "man_name m = n" by simp
    with Inr IH e show ?thesis by auto
  qed
qed

lemma distinct_keys_of_names: "distinct (map man_name xs) \<Longrightarrow> distinct (map man_key xs)"
  by (induction xs) (auto simp: man_key_def)

lemma batch_distinct:
  assumes nf: "name_faithful L" and wf: "wf_manifest man"
  shows "distinct (map man_key (batch L man w))"
proof -
  let ?es = "filter (\<lambda>(name, version). (name, version) \<notin> resolved w)
               (getManifestDependencies L man (w_options w))"
  let ?g = "\<lambda>(name, version). snd (getPackageManifest L name version)"
  have "map fst (getManifestDependencies L man (w_options w)) = map fst (mergedPackages man (w_options w))"
    by (simp add: getManifestDependencies_def case_prod_unfold comp_def)
  then have "distinct (map fst (getManifestDependencies L man (w_options w)))"
    using distinct_mergedPackages [OF wf] by simp
  then have d: "distinct (map fst ?es)" by (rule distinct_map_filter)
  have h: "\<forall>n v m. (n, v) \<in> set ?es \<longrightarrow> ?g (n, v) = Inr m \<longrightarrow> man_name m = n"
    using getPackageManifest_faithful [OF nf] by simp
  have "distinct (map man_name (fulfilled (map ?g ?es)))"
    using fulfilled_names [OF h] d by blast
  then have "distinct (map man_name (fulfilled (settledEdges L man w)))"
    by (simp only: settledEdges_def)
  then have "distinct (map man_key (fulfilled (settledEdges L man w)))"
    by (rule distinct_keys_of_names)
  then show ?thesis unfolding batch_def by (rule distinct_map_filter)
qed

lemma childs_distinct:
  assumes P: "\<And>m w out w'. wf_manifest m \<Longrightarrow> resolveDependencies f L m w = Some (out, w') \<Longrightarrow>
                distinct (map pkg_key out)"
    and run: "resolveChilds f L n ms w = Some (out, w')"
    and sub: "man_key ` set ms \<subseteq> resolved w"
    and dis: "distinct (map man_key ms)"
    and wfs: "\<forall>m \<in> set ms. wf_manifest m"
  shows "distinct (map pkg_key out)"
  using run sub dis wfs
proof (induction ms arbitrary: w out w')
  case Nil
  then show ?case by simp
next
  case (Cons m ms)
  let ?w0 = "w\<lparr>w_options := (w_options w)\<lparr>depth := Some (depth_or0 (w_options w) + 1)\<rparr>\<rparr>"
  from Cons.prems(1) obtain childs w1 rest where
    c: "resolveDependencies f L m ?w0 = Some (childs, w1)"
    and r: "resolveChilds f L n ms
            (if depth (w_options w1) = Some 0
             then w1\<lparr>w_options := (w_options w1)\<lparr>progress := Some (progress_or0 (w_options w1) + 1 / of_nat n)\<rparr>\<rparr>
             else w1) = Some (rest, w')"
    and out: "out = toPackage m # childs @ rest"
    unfolding resolveChilds_Cons by blast
  let ?w2 = "if depth (w_options w1) = Some 0
             then w1\<lparr>w_options := (w_options w1)\<lparr>progress := Some (progress_or0 (w_options w1) + 1 / of_nat n)\<rparr>\<rparr>
             else w1"
  have wfm: "wf_manifest m" using Cons.prems(4) by simp
  have dc: "distinct (map pkg_key childs)" by (rule P [OF wfm c])
  from resolve_effect [OF c]
  have res1: "resolved w1 = resolved w \<union> pkg_key ` set childs"
    and d1: "pkg_key ` set childs \<inter> resolved w = {}"
    by (simp_all add: call_effect_def)
  have res2: "resolved ?w2 = resolved w1" by simp
  have sub2: "man_key ` set ms \<subseteq> resolved ?w2"
    using Cons.prems(2) unfolding res2 res1 by auto
  have dr: "distinct (map pkg_key rest)"
    using Cons.IH [OF r sub2] Cons.prems(3,4) by simp
  from childs_effect' [OF r sub2]
  have k2: "\<forall>k \<in> pkg_key ` set rest. k \<in> man_key ` set ms \<or> k \<notin> resolved ?w2" by blast
  have km: "man_key m \<in> resolved w" using Cons.prems(2) by simp
  have nm: "man_key m \<notin> man_key ` set ms" using Cons.prems(3) by simp
  have a: "man_key m \<notin> pkg_key ` set childs" using km d1 by blast
  have b: "man_key m \<notin> pkg_key ` set rest"
  proof
    assume "man_key m \<in> pkg_key ` set rest"
    with k2 have "man_key m \<in> man_key ` set ms \<or> man_key m \<notin> resolved ?w2" by blast
    with nm km show False unfolding res2 res1 by blast
  qed
  have c': "pkg_key ` set childs \<inter> pkg_key ` set rest = {}"
  proof -
    have False if "k \<in> pkg_key ` set childs" "k \<in> pkg_key ` set rest" for k
    proof -
      from k2 that(2) have "k \<in> man_key ` set ms \<or> k \<notin> resolved ?w2" by blast
      then show False
      proof
        assume "k \<in> man_key ` set ms"
        with Cons.prems(2) have "k \<in> resolved w" by auto
        with d1 that(1) show False by blast
      next
        assume "k \<notin> resolved ?w2"
        with that(1) show False unfolding res2 res1 by blast
      qed
    qed
    then show ?thesis by blast
  qed
  show ?case
    unfolding out using a b c' dc dr by simp
qed

lemma resolve_distinct:
  "name_faithful L \<Longrightarrow> wf_manifest m \<Longrightarrow> resolveDependencies f L m w = Some (out, w') \<Longrightarrow>
     distinct (map pkg_key out)"
proof (induction f arbitrary: m w out w')
  case 0
  then show ?case by simp
next
  case (Suc f)
  show ?case
  proof (cases "getManifestDependencies L m (w_options w) = []")
    case True
    with Suc.prems(3) show ?thesis by (simp add: resolveDependencies_Suc)
  next
    case False
    with Suc.prems(3) have r: "resolveChilds f L (length (getManifestDependencies L m (w_options w)))
       (batch L m w) (enter L m w) = Some (out, w')"
      by (simp add: resolveDependencies_Suc)
    have sub: "man_key ` set (batch L m w) \<subseteq> resolved (enter L m w)"
      unfolding enter_fields by auto
    show ?thesis
    proof (rule childs_distinct [OF _ r sub])
      show "distinct (map man_key (batch L m w))"
        by (rule batch_distinct [OF Suc.prems(1,2)])
      show "\<forall>m' \<in> set (batch L m w). wf_manifest m'"
        using batch_wf [OF Suc.prems(1)] by blast
      show "distinct (map pkg_key out')"
        if "wf_manifest m'" "resolveDependencies f L m' v = Some (out', v')" for m' v out' v'
        using Suc.IH [OF Suc.prems(1) that] .
    qed
  qed
qed

lemma childs_terminate:
  assumes IH: "\<And>m w. card (universe L - resolved w) < f \<Longrightarrow> resolveDependencies f L m w \<noteq> None"
    and fin: "finite (universe L)"
    and c: "card (universe L - resolved w) < f"
  shows "resolveChilds f L n ms w \<noteq> None"
  using c
proof (induction ms arbitrary: w)
  case Nil
  then show ?case by simp
next
  case (Cons m ms)
  let ?w0 = "w\<lparr>w_options := (w_options w)\<lparr>depth := Some (depth_or0 (w_options w) + 1)\<rparr>\<rparr>"
  have "card (universe L - resolved ?w0) < f" using Cons.prems by simp
  from IH [of ?w0 m, OF this] obtain childs w1 where c1: "resolveDependencies f L m ?w0 = Some (childs, w1)"
    by (cases "resolveDependencies f L m ?w0") auto
  let ?w2 = "if depth (w_options w1) = Some 0
             then w1\<lparr>w_options := (w_options w1)\<lparr>progress := Some (progress_or0 (w_options w1) + 1 / of_nat n)\<rparr>\<rparr>
             else w1"
  have "resolved w \<subseteq> resolved w1" using resolved_grows [OF c1] by simp
  then have "universe L - resolved ?w2 \<subseteq> universe L - resolved w" by auto
  then have "card (universe L - resolved ?w2) \<le> card (universe L - resolved w)"
    using fin by (intro card_mono) auto
  with Cons.prems have "card (universe L - resolved ?w2) < f" by simp
  from Cons.IH [OF this] obtain rest w' where r: "resolveChilds f L n ms ?w2 = Some (rest, w')"
    by (cases "resolveChilds f L n ms ?w2") auto
  have "resolveChilds f L n (m # ms) w = Some (toPackage m # childs @ rest, w')"
    unfolding resolveChilds_Cons using c1 r by blast
  then show ?case by simp
qed

lemma resolve_terminates:
  "finite (universe L) \<Longrightarrow> card (universe L - resolved w) < f \<Longrightarrow> resolveDependencies f L m w \<noteq> None"
proof (induction f arbitrary: m w)
  case 0
  then show ?case by simp
next
  case (Suc f)
  show ?case
  proof (cases "getManifestDependencies L m (w_options w) = []")
    case True
    then show ?thesis by (simp add: resolveDependencies_Suc)
  next
    case False
    show ?thesis
    proof (cases "batch L m w = []")
      case True
      with False show ?thesis by (simp add: resolveDependencies_Suc)
    next
      case nonempty: False
      then obtain b where b: "b \<in> set (batch L m w)" by (cases "batch L m w") auto
      have k: "man_key b \<in> universe L - resolved w" by (rule batch_universe [OF b])
      have "man_key b \<in> resolved (enter L m w)" unfolding enter_fields using b by simp
      with k have "universe L - resolved (enter L m w) \<subset> universe L - resolved w"
        unfolding enter_fields by auto
      then have "card (universe L - resolved (enter L m w)) < card (universe L - resolved w)"
        using Suc.prems(1) by (intro psubset_card_mono) auto
      with Suc.prems(2) have c: "card (universe L - resolved (enter L m w)) < f" by simp
      have "resolveChilds f L (length (getManifestDependencies L m (w_options w))) (batch L m w) (enter L m w) \<noteq> None"
        by (rule childs_terminate [OF Suc.IH [OF Suc.prems(1)] Suc.prems(1) c])
      with False show ?thesis by (simp add: resolveDependencies_Suc)
    qed
  qed
qed

lemma childs_fuel_Suc:
  assumes P: "\<And>m w r. resolveDependencies f L m w = Some r \<Longrightarrow> resolveDependencies (Suc f) L m w = Some r"
    and run: "resolveChilds f L n ms w = Some r"
  shows "resolveChilds (Suc f) L n ms w = Some r"
  using run
proof (induction ms arbitrary: w r)
  case Nil
  then show ?case by simp
next
  case (Cons m ms)
  obtain out w' where r: "r = (out, w')" by (cases r)
  from Cons.prems [unfolded r resolveChilds_Cons] obtain childs w1 rest where
    c: "resolveDependencies f L m (w\<lparr>w_options := (w_options w)\<lparr>depth := Some (depth_or0 (w_options w) + 1)\<rparr>\<rparr>)
          = Some (childs, w1)"
    and rr: "resolveChilds f L n ms
            (if depth (w_options w1) = Some 0
             then w1\<lparr>w_options := (w_options w1)\<lparr>progress := Some (progress_or0 (w_options w1) + 1 / of_nat n)\<rparr>\<rparr>
             else w1) = Some (rest, w')"
    and out: "out = toPackage m # childs @ rest"
    by blast
  show ?case
    unfolding r resolveChilds_Cons using P [OF c] Cons.IH [OF rr] out by blast
qed

lemma resolve_fuel_Suc:
  "resolveDependencies f L m w = Some r \<Longrightarrow> resolveDependencies (Suc f) L m w = Some r"
proof (induction f arbitrary: m w r)
  case 0
  then show ?case by simp
next
  case (Suc f)
  show ?case
  proof (cases "getManifestDependencies L m (w_options w) = []")
    case True
    with Suc.prems show ?thesis by (simp add: resolveDependencies_Suc)
  next
    case False
    with Suc.prems have "resolveChilds f L (length (getManifestDependencies L m (w_options w)))
       (batch L m w) (enter L m w) = Some r"
      by (simp add: resolveDependencies_Suc)
    then have "resolveChilds (Suc f) L (length (getManifestDependencies L m (w_options w)))
       (batch L m w) (enter L m w) = Some r"
      using childs_fuel_Suc [of f L] Suc.IH by blast
    with False show ?thesis by (simp add: resolveDependencies_Suc [of "Suc f"])
  qed
qed

lemma resolve_fuel_mono:
  "f \<le> f' \<Longrightarrow> resolveDependencies f L m w = Some r \<Longrightarrow> resolveDependencies f' L m w = Some r"
  by (induction f' rule: dec_induct) (auto intro: resolve_fuel_Suc)

subsection \<open>The table registry\<close>

lemma table_manifest_Inr:
  assumes "table_manifest tab n v = Inr m"
  shows "m \<in> set tab \<and> man_name m = n"
proof (cases "filter (\<lambda>m. man_name m = n) tab")
  case Nil
  with assms show ?thesis by (simp add: table_manifest_def)
next
  case (Cons m0 ms)
  have mem: "x \<in> set tab \<and> man_name x = n" if "x \<in> set (m0 # ms)" for x
    using that unfolding Cons [symmetric] by simp
  have "m \<in> set (m0 # ms)"
    using assms Cons
    by (auto simp: table_manifest_def split: option.splits if_splits dest: find_Some_iff [THEN iffD1]
        simp: in_set_conv_nth)
  then show ?thesis by (rule mem)
qed

lemma table_faithful:
  assumes "\<forall>m \<in> set tab. wf_manifest m"
  shows "name_faithful (table_libs tab)"
  unfolding name_faithful_def
proof (intro allI impI)
  fix n v m
  assume "pacote_manifest (table_libs tab) n v = Inr m"
  then have "table_manifest tab n v = Inr m" by (simp add: table_libs_def)
  from table_manifest_Inr [OF this] assms show "man_name m = n \<and> wf_manifest m" by blast
qed

lemma table_universe: "universe (table_libs tab) \<subseteq> man_key ` set tab"
proof
  fix k assume "k \<in> universe (table_libs tab)"
  then obtain n v m where "table_manifest tab n v = Inr m" "k = man_key m"
    by (auto simp: universe_def table_libs_def)
  with table_manifest_Inr [of tab n v m] show "k \<in> man_key ` set tab" by blast
qed

lemma table_finite: "finite (universe (table_libs tab))"
  using table_universe [of tab] by (rule finite_subset) simp

lemma table_card: "card (universe (table_libs tab) - s) \<le> length tab"
proof -
  have "card (universe (table_libs tab) - s) \<le> card (man_key ` set tab)"
    using table_universe [of tab] by (intro card_mono) auto
  also have "\<dots> \<le> card (set tab)" by (rule card_image_le) simp
  also have "\<dots> \<le> length tab" by (rule card_length)
  finally show ?thesis .
qed

lemma cycle_facts:
  "wf_manifest cycle_root"
  "\<forall>m \<in> set cycle_table. wf_manifest m"
  "length cycle_table = 2"
  by (simp_all add: wf_manifest_def cycle_root_def cycle_table_def mk_manifest_def)

lemma cycle_run:
  "map_option (map pkg_key \<circ> fst) (resolveDependencies 3 (table_libs cycle_table) cycle_root fresh_world)
     = Some [(''a'', ''1.0.0''), (''b'', ''1.0.0'')]"
  by code_simp

subsection \<open>Termination\<close>

text \<open>
  Claim C8, as the code has it. For a registry with finitely many manifests (a dependency
  graph, cyclic or not) the resolver returns: every bound on the depth of the recursion above the number of
  pairs of the graph that are not yet visited gives the same result. No emitted (and so
  expanded) pair was in the visited set when the call started, the visited set afterwards
  is the one before plus the emitted pairs, and, when the registry answers each query with
  a manifest of the name asked, no pair is emitted (and so expanded) twice. On the cycle
  \<open>a@1.0.0 \<rightarrow> b@1.0.0 \<rightarrow> a@1.0.0\<close> the output is exactly \<open>a@1.0.0\<close>, \<open>b@1.0.0\<close>.
\<close>

theorem resolver_terminates:
  "(finite (universe L) \<longrightarrow>
      (\<exists>out w'. (\<forall>f. card (universe L - resolved w) < f \<longrightarrow> resolveDependencies f L m w = Some (out, w'))
         \<and> pkg_key ` set out \<inter> resolved w = {}
         \<and> resolved w' = resolved w \<union> pkg_key ` set out
         \<and> (name_faithful L \<and> wf_manifest m \<longrightarrow> distinct (map pkg_key out))))
   \<and> map_option (map pkg_key \<circ> fst) (resolveDependencies 3 (table_libs cycle_table) cycle_root fresh_world)
       = Some [(''a'', ''1.0.0''), (''b'', ''1.0.0'')]"
proof (intro conjI impI)
  assume fin: "finite (universe L)"
  let ?f0 = "Suc (card (universe L - resolved w))"
  from resolve_terminates [OF fin, of w ?f0 m] obtain out w' where
    r0: "resolveDependencies ?f0 L m w = Some (out, w')"
    by (cases "resolveDependencies ?f0 L m w") auto
  have all: "\<forall>f. card (universe L - resolved w) < f \<longrightarrow> resolveDependencies f L m w = Some (out, w')"
  proof (intro allI impI)
    fix f assume "card (universe L - resolved w) < f"
    then have "?f0 \<le> f" by simp
    then show "resolveDependencies f L m w = Some (out, w')" using r0 by (rule resolve_fuel_mono)
  qed
  from resolve_effect [OF r0]
  have "pkg_key ` set out \<inter> resolved w = {}" and "resolved w' = resolved w \<union> pkg_key ` set out"
    by (simp_all add: call_effect_def)
  moreover have "name_faithful L \<and> wf_manifest m \<longrightarrow> distinct (map pkg_key out)"
    using resolve_distinct [of L m ?f0 w out w'] r0 by blast
  ultimately show "\<exists>out w'. (\<forall>f. card (universe L - resolved w) < f \<longrightarrow> resolveDependencies f L m w = Some (out, w'))
         \<and> pkg_key ` set out \<inter> resolved w = {}
         \<and> resolved w' = resolved w \<union> pkg_key ` set out
         \<and> (name_faithful L \<and> wf_manifest m \<longrightarrow> distinct (map pkg_key out))"
    using all by blast
next
  show "map_option (map pkg_key \<circ> fst) (resolveDependencies 3 (table_libs cycle_table) cycle_root fresh_world)
       = Some [(''a'', ''1.0.0''), (''b'', ''1.0.0'')]"
    by (rule cycle_run)
qed

text \<open>The theorem of C8 on the registry of the cycle, whose graph has two pairs.\<close>

theorem resolver_terminates_witness:
  "finite (universe (table_libs cycle_table))
   \<and> name_faithful (table_libs cycle_table) \<and> wf_manifest cycle_root
   \<and> card (universe (table_libs cycle_table) - resolved fresh_world) < 3
   \<and> resolveDependencies 3 (table_libs cycle_table) cycle_root fresh_world \<noteq> None
   \<and> distinct (map pkg_key (fst (the (resolveDependencies 3 (table_libs cycle_table) cycle_root fresh_world))))"
proof -
  have fin: "finite (universe (table_libs cycle_table))" by (rule table_finite)
  have nf: "name_faithful (table_libs cycle_table)" by (rule table_faithful [OF cycle_facts(2)])
  have c: "card (universe (table_libs cycle_table) - resolved fresh_world) < 3"
    using table_card [of cycle_table "resolved fresh_world"] cycle_facts(3) by simp
  from resolver_terminates [of "table_libs cycle_table" fresh_world cycle_root, THEN conjunct1] fin
  obtain out w' where
    a: "\<forall>f. card (universe (table_libs cycle_table) - resolved fresh_world) < f \<longrightarrow>
          resolveDependencies f (table_libs cycle_table) cycle_root fresh_world = Some (out, w')"
    and d: "name_faithful (table_libs cycle_table) \<and> wf_manifest cycle_root \<longrightarrow> distinct (map pkg_key out)"
    by blast
  from a c have r: "resolveDependencies 3 (table_libs cycle_table) cycle_root fresh_world = Some (out, w')"
    by blast
  from d nf cycle_facts(1) have "distinct (map pkg_key out)" by blast
  with r fin nf c cycle_facts(1) show ?thesis by simp
qed

lemma alias_finite: "finite (universe alias_libs)"
proof -
  have "universe alias_libs \<subseteq> {man_key (mk_manifest ''c'' ''1.0.0'' [])}"
    by (auto simp: universe_def alias_libs_def)
  then show ?thesis by (rule finite_subset) simp
qed

lemma alias_run:
  "map_option (\<lambda>(out, w). (map pkg_key out, depth (w_options w)))
     (resolveDependencies 2 alias_libs alias_root fresh_world)
   = Some ([(''c'', ''1.0.0''), (''c'', ''1.0.0'')], Some 2)"
  by code_simp

text \<open>
  C8 as stated has only the first visit of a pair expanded, for every dependency graph. The
  registry that answers every query with \<open>c@1.0.0\<close> has one pair; the root edges \<open>a\<close> and
  \<open>b\<close> both resolve to it, both pass the filter, and the pair is emitted and expanded
  twice (the depth ends at 2), the second time while it is in the visited set.
\<close>

theorem expanded_twice_counterexample:
  "finite (universe alias_libs)
   \<and> map_option (\<lambda>(out, w). (map pkg_key out, depth (w_options w)))
        (resolveDependencies 2 alias_libs alias_root fresh_world)
      = Some ([(''c'', ''1.0.0''), (''c'', ''1.0.0'')], Some 2)
   \<and> \<not> distinct [(''c'', ''1.0.0''), (''c'', ''1.0.0'')]"
  using alias_finite alias_run by simp

subsection \<open>No duplicates\<close>

text \<open>
  Claim C2, as the code has it. When the registry answers each query with a manifest of
  the name asked, the output of a pass holds each (name, version) pair at most once and
  none that was visited before the pass, from a cleared visited set or any other; the
  manifests that the sibling edges of one parent resolve to are then pairwise different,
  since the edges have different names.
\<close>

theorem output_distinct:
  assumes "name_faithful L" and "wf_manifest m"
    and "resolveDependencies f L m w = Some (out, w')"
  shows "distinct (map pkg_key out) \<and> pkg_key ` set out \<inter> resolved w = {}
         \<and> distinct (map man_key (batch L m w))"
  using resolve_distinct [OF assms] resolve_effect [OF assms(3)] batch_distinct [OF assms(1,2)]
  by blast

text \<open>The theorem of C2 on the registry of the cycle, from the cleared visited set.\<close>

theorem output_distinct_witness:
  "name_faithful (table_libs cycle_table) \<and> wf_manifest cycle_root
   \<and> resolveDependencies 3 (table_libs cycle_table) cycle_root fresh_world \<noteq> None
   \<and> distinct (map pkg_key (fst (the (resolveDependencies 3 (table_libs cycle_table) cycle_root fresh_world))))"
proof -
  have nf: "name_faithful (table_libs cycle_table)" by (rule table_faithful [OF cycle_facts(2)])
  obtain out w' where r: "resolveDependencies 3 (table_libs cycle_table) cycle_root fresh_world = Some (out, w')"
    using cycle_run by (cases "resolveDependencies 3 (table_libs cycle_table) cycle_root fresh_world") auto
  from output_distinct [OF nf cycle_facts(1) r] have "distinct (map pkg_key out)" by blast
  with r nf cycle_facts(1) show ?thesis by simp
qed

text \<open>
  C2 as stated has one output element when two sibling edges resolve to the same pair.
  The second filter runs over all manifests of the parent before any of them is added to
  the visited set: the sibling edges \<open>a@^1.0.0\<close> and \<open>b@1.0.0\<close>, both answered with
  \<open>c@1.0.0\<close>, give two output elements \<open>c@1.0.0\<close>.
\<close>

theorem sibling_duplicate_counterexample:
  "getManifestDependencies alias_libs alias_root fresh_options = [(''a'', ''^1.0.0''), (''b'', ''1.0.0'')]
   \<and> map_option (map pkg_key \<circ> fst) (resolveDependencies 2 alias_libs alias_root fresh_world)
       = Some [(''c'', ''1.0.0''), (''c'', ''1.0.0'')]"
  by code_simp

subsection \<open>Progress and the options object\<close>

text \<open>
  Claim C9 on the root edges \<open>a\<close> (a leaf) and \<open>b\<close> (which depends on \<open>c\<close>), with
  options that have no \<open>depth\<close> and no \<open>progress\<close>. The claim expects the fraction 1/2
  once \<open>a\<close> is complete, carried by the event of \<open>c\<close>, and 1 at the end. The shared
  options object has depth 1 when the call for \<open>a\<close> returns and depth 3 at the end, the test
  \<open>options.depth === 0\<close> never holds, and the fraction stays 0 in every event and at the end.
\<close>

theorem progress_stuck:
  "map_option (\<lambda>(out, w). (map pkg_key out, progress (w_options w), depth (w_options w), events w))
     (resolveDependencies 4 (table_libs progress_table) tree_root fresh_world)
   = Some ([(''a'', ''1.0.0''), (''b'', ''1.0.0''), (''c'', ''1.0.0'')], Some 0, Some 3,
           [(''Resolving dependencies: a@1.0.0'', 0), (''Resolving dependencies: b@1.0.0'', 0),
            (''Resolving dependencies: c@1.0.0'', 0)])"
  by code_simp

text \<open>
  Claim C10, as the code has it. A call leaves the fields \<open>dev\<close>, \<open>peer\<close>, \<open>optional\<close>,
  \<open>registry\<close> and \<open>logger\<close> of the caller's options as they were. For a manifest without
  included dependencies it leaves the whole object as it was. Otherwise it writes \<open>depth\<close>
  and \<open>progress\<close> into the object, and \<open>depth\<close> is raised in place by one for each
  emitted package and never restored: after the call it is the original depth (or 0) plus
  the length of the output. So when the original depth is absent or not negative and at
  least one package is emitted, the depth afterwards is positive, and a later call with
  the same object does not start at depth 0.
\<close>

theorem options_mutation:
  assumes "resolveDependencies f L m w = Some (out, w')"
  shows "dev (w_options w') = dev (w_options w) \<and> peer (w_options w') = peer (w_options w)
         \<and> optional (w_options w') = optional (w_options w)
         \<and> registry (w_options w') = registry (w_options w)
         \<and> logger (w_options w') = logger (w_options w)
         \<and> (getManifestDependencies L m (w_options w) = [] \<longrightarrow> w_options w' = w_options w)
         \<and> (getManifestDependencies L m (w_options w) \<noteq> [] \<longrightarrow>
              depth (w_options w') = Some (depth_or0 (w_options w) + int (length out))
              \<and> progress (w_options w') \<noteq> None)
         \<and> (0 \<le> depth_or0 (w_options w) \<and> out \<noteq> [] \<longrightarrow> 0 < depth_or0 (w_options w'))"
proof -
  from resolve_effect [OF assms]
  have e: "call_effect w out w'"
    and z: "getManifestDependencies L m (w_options w) = [] \<longrightarrow> w' = w \<and> out = []"
    and n: "getManifestDependencies L m (w_options w) \<noteq> [] \<longrightarrow>
              depth (w_options w') = Some (depth_or0 (w_options w) + int (length out))
              \<and> progress (w_options w') \<noteq> None"
    by blast+
  from e have "frame (w_options w) (w_options w')" unfolding call_effect_def by blast
  then have "dev (w_options w') = dev (w_options w)" "peer (w_options w') = peer (w_options w)"
    "optional (w_options w') = optional (w_options w)" "registry (w_options w') = registry (w_options w)"
    "logger (w_options w') = logger (w_options w)"
    by (simp_all add: frame_def)
  moreover from z have "getManifestDependencies L m (w_options w) = [] \<longrightarrow> w_options w' = w_options w"
    by simp
  moreover have "0 \<le> depth_or0 (w_options w) \<and> out \<noteq> [] \<longrightarrow> 0 < depth_or0 (w_options w')"
  proof
    assume a: "0 \<le> depth_or0 (w_options w) \<and> out \<noteq> []"
    with z have "getManifestDependencies L m (w_options w) \<noteq> []" by blast
    with n have "depth_or0 (w_options w') = depth_or0 (w_options w) + int (length out)"
      by (simp add: depth_or0_def)
    moreover from a have "0 < int (length out)" by simp
    ultimately show "0 < depth_or0 (w_options w')" using a by linarith
  qed
  ultimately show ?thesis using n by blast
qed

lemma progress_run:
  "map_option (length \<circ> fst) (resolveDependencies 4 (table_libs progress_table) tree_root fresh_world) = Some 3"
  "getManifestDependencies (table_libs progress_table) tree_root (w_options fresh_world) \<noteq> []"
  "depth_or0 (w_options fresh_world) = 0"
  "map_option (length \<circ> fst)
     (resolveDependencies 1 (table_libs []) (mk_manifest ''root'' ''0.0.0'' []) fresh_world) = Some 0"
  "getManifestDependencies (table_libs []) (mk_manifest ''root'' ''0.0.0'' []) (w_options fresh_world) = []"
  by code_simp+

text \<open>
  The theorem of C10 on the run with three emitted packages, where the depth ends at 3, and
  on a root manifest without dependencies.
\<close>

theorem options_mutation_witness:
  "resolveDependencies 4 (table_libs progress_table) tree_root fresh_world \<noteq> None
   \<and> depth (w_options (snd (the (resolveDependencies 4 (table_libs progress_table) tree_root fresh_world)))) = Some 3
   \<and> logger (w_options (snd (the (resolveDependencies 4 (table_libs progress_table) tree_root fresh_world))))
       = logger (w_options fresh_world)
   \<and> 0 < depth_or0 (w_options (snd (the (resolveDependencies 4 (table_libs progress_table) tree_root fresh_world))))
   \<and> w_options (snd (the (resolveDependencies 1 (table_libs []) (mk_manifest ''root'' ''0.0.0'' []) fresh_world)))
       = w_options fresh_world"
proof -
  obtain out w' where r: "resolveDependencies 4 (table_libs progress_table) tree_root fresh_world = Some (out, w')"
    using progress_run(1)
    by (cases "resolveDependencies 4 (table_libs progress_table) tree_root fresh_world") auto
  with progress_run(1) have l: "length out = 3" by simp
  then have ne: "out \<noteq> []" by auto
  from options_mutation [OF r] progress_run(2,3) l ne
  have "depth (w_options w') = Some 3" and "logger (w_options w') = logger (w_options fresh_world)"
    and "0 < depth_or0 (w_options w')"
    by simp_all
  moreover
  obtain out0 w0 where r0: "resolveDependencies 1 (table_libs []) (mk_manifest ''root'' ''0.0.0'' []) fresh_world
      = Some (out0, w0)"
    using progress_run(4)
    by (cases "resolveDependencies 1 (table_libs []) (mk_manifest ''root'' ''0.0.0'' []) fresh_world") auto
  from options_mutation [OF r0] progress_run(5) have "w_options w0 = w_options fresh_world" by simp
  ultimately show ?thesis using r r0 by simp
qed

text \<open>
  C10 as stated has every call change \<open>depth\<close> and \<open>progress\<close>. For a root manifest with
  no dependencies the call returns before it writes them: the options are as they were,
  without \<open>depth\<close> and without \<open>progress\<close>.
\<close>

theorem options_untouched_counterexample:
  "map_option (w_options \<circ> snd)
     (resolveDependencies 1 (table_libs []) (mk_manifest ''root'' ''0.0.0'' []) fresh_world)
     = Some fresh_options
   \<and> depth fresh_options = None \<and> progress fresh_options = None"
  by code_simp

end
